theory Spec2Isabelle
  imports Main
begin

section \<open>Character codes and token kinds\<close>

text \<open>
  A character code is a number or \<open>null\<close> (end of input).  The named codes and the
  two character classes come from the tokenizer's symbol tables, which are not among the
  sources; their values are the ones of \<open>micromark-util-symbol\<close> and
  \<open>micromark-util-character\<close>: line endings are the negative codes below the
  horizontal tab, and a markdown space is a tab, a virtual space or a space.
\<close>

type_synonym code = "int option"

definition codes_eof :: code where "codes_eof = None"
definition codes_carriageReturn :: code where "codes_carriageReturn = Some (- 5)"
definition codes_lineFeed :: code where "codes_lineFeed = Some (- 4)"
definition codes_carriageReturnLineFeed :: code where "codes_carriageReturnLineFeed = Some (- 3)"
definition codes_horizontalTab :: code where "codes_horizontalTab = Some (- 2)"
definition codes_virtualSpace :: code where "codes_virtualSpace = Some (- 1)"
definition codes_space :: code where "codes_space = Some 32"
definition codes_leftParenthesis :: code where "codes_leftParenthesis = Some 40"
definition codes_rightParenthesis :: code where "codes_rightParenthesis = Some 41"
definition codes_leftSquareBracket :: code where "codes_leftSquareBracket = Some 91"
definition codes_backslash :: code where "codes_backslash = Some 92"
definition codes_rightSquareBracket :: code where "codes_rightSquareBracket = Some 93"

definition constants_tabSize :: nat where "constants_tabSize = 4"

lemmas codes_defs =
  codes_eof_def codes_carriageReturn_def codes_lineFeed_def codes_carriageReturnLineFeed_def
  codes_horizontalTab_def codes_virtualSpace_def codes_space_def codes_leftParenthesis_def
  codes_rightParenthesis_def codes_leftSquareBracket_def codes_backslash_def
  codes_rightSquareBracket_def

fun markdownLineEnding :: "code \<Rightarrow> bool" where
  "markdownLineEnding None = False"
| "markdownLineEnding (Some c) = (c < - 2)"

fun markdownSpace :: "code \<Rightarrow> bool" where
  "markdownSpace None = False"
| "markdownSpace (Some c) = (c = - 2 \<or> c = - 1 \<or> c = 32)"

text \<open>The token types named by the two recognizers and the resolver.\<close>

datatype kind =
    mathText | mathTextSequence | mathTextData | mathTextPadding | space
  | lineEnding | characterEscape
  | mathFlow | mathFlowFence | mathFlowFenceSequence | mathFlowFenceMeta | mathFlowValue
  | chunkString | whitespace | linePrefix

datatype error = AssertionError | TypeError

section \<open>The scanning engine, as the recognizers use it\<close>

text \<open>
  The recognizers drive the engine through \<open>effects.enter\<close>, \<open>effects.exit\<close> and
  \<open>effects.consume\<close>.  The engine is not among the sources; it is modelled by its
  interface: it holds the codes not yet passed (end of input once they are exhausted),
  the current line, and the sequence of calls it has received.  \<open>consume\<close> advances by
  one code on every call and moves to the next line on a line ending; \<open>enter\<close> and
  \<open>exit\<close> record an event of the kind they are given.  A state function that is
  returned (rather than called) is invoked by the engine with the code at its position,
  \<open>current\<close>.
\<close>

datatype action = Enter kind | Exit kind | Consume code

record engine =
  rest :: "int list"
  line :: nat
  log :: "action list"

definition current :: "engine \<Rightarrow> code" where
  "current e = (case rest e of [] \<Rightarrow> None | c # _ \<Rightarrow> Some c)"

definition enter :: "kind \<Rightarrow> engine \<Rightarrow> engine" where
  "enter k e = e\<lparr>log := log e @ [Enter k]\<rparr>"

definition exit :: "kind \<Rightarrow> engine \<Rightarrow> engine" where
  "exit k e = e\<lparr>log := log e @ [Exit k]\<rparr>"

definition consume :: "code \<Rightarrow> engine \<Rightarrow> engine" where
  "consume c e =
     e\<lparr>rest := tl (rest e),
       line := (if markdownLineEnding c then Suc (line e) else line e),
       log := log e @ [Consume c]\<rparr>"

text \<open>The tokenize context: what \<open>this\<close> offers to a recognizer.\<close>

record tokenizeContext =
  ctx_previous :: code
  ctx_events :: "kind list"
  ctx_interrupt :: bool
  ctx_lazy :: "nat \<Rightarrow> bool"
  ctx_disable_null :: "string list option"
  ctx_initialSize :: nat

datatype result = Ok code engine | Nok code engine | Threw error

section \<open>The inline recognizer\<close>

text \<open>
  \<open>previous\<close>: the last event of \<open>this.events\<close> is read only when the code is a
  backslash; with no event there the read throws.
\<close>

definition previous :: "tokenizeContext \<Rightarrow> code \<Rightarrow> error + bool" where
  "previous self c =
     (if c \<noteq> codes_backslash then Inr True
      else if ctx_events self = [] then Inl TypeError
      else Inr (last (ctx_events self) = characterEscape))"

lemma tl_eq_ConsD: "tl xs = y # ys \<Longrightarrow> length xs = Suc (Suc (length ys))"
  by (cases xs) auto

definition weight :: "code \<Rightarrow> engine \<Rightarrow> nat" where
  "weight c e = 2 * length (rest e) + (if c = None then 0 else 1)"

function between :: "code \<Rightarrow> engine \<Rightarrow> result"
  and closeParenthesis :: "code \<Rightarrow> engine \<Rightarrow> result"
  and data :: "code \<Rightarrow> engine \<Rightarrow> result"
where
  "between c e =
     (if c = codes_eof then Nok c e
      else if c = codes_backslash then
        (let e = enter mathTextSequence e; e = consume c e
         in closeParenthesis (current e) e)
      else if c = codes_space then
        (let e = enter space e; e = consume c e; e = exit space e
         in between (current e) e)
      else if markdownLineEnding c then
        (let e = enter lineEnding e; e = consume c e; e = exit lineEnding e
         in between (current e) e)
      else data c (enter mathTextData e))"
| "closeParenthesis c e =
     (if c = codes_rightParenthesis then
        (let e = consume c e; e = exit mathTextSequence e; e = exit mathText e
         in Ok c e)
      else
        (let e = enter mathTextData e; e = consume c e; e = exit mathTextSequence e
         in data c e))"
| "data c e =
     (if c = codes_eof \<or> c = codes_space \<or> c = codes_backslash \<or> markdownLineEnding c then
        between c (exit mathTextData e)
      else
        (let e = consume c e in data (current e) e))"
  by pat_completeness auto
termination
  apply (relation "measure (\<lambda>x. case x of
      Inl (c, e) \<Rightarrow> 4 * weight c e +
        (if c = codes_eof \<or> c = codes_space \<or> c = codes_backslash \<or> markdownLineEnding c
         then 1 else 2)
    | Inr (Inl (c, e)) \<Rightarrow> 4 * weight c e + 3
    | Inr (Inr (c, e)) \<Rightarrow> 4 * weight c e +
        (if c = codes_eof \<or> c = codes_space \<or> c = codes_backslash \<or> markdownLineEnding c
         then 2 else 1))")
         apply (auto simp: weight_def current_def enter_def exit_def consume_def codes_defs
      split: list.splits dest!: tl_eq_ConsD)
  done

declare between.simps [simp del] closeParenthesis.simps [simp del] data.simps [simp del]

definition openParenthesis :: "code \<Rightarrow> engine \<Rightarrow> result" where
  "openParenthesis c e =
     (if c = codes_leftParenthesis then
        (let e = consume c e; e = exit mathTextSequence e
         in between (current e) e)
      else Nok c e)"

definition mathText_start :: "tokenizeContext \<Rightarrow> code \<Rightarrow> engine \<Rightarrow> result" where
  "mathText_start self c e =
     (if c \<noteq> codes_backslash then Threw AssertionError
      else case previous self (ctx_previous self) of
        Inl err \<Rightarrow> Threw err
      | Inr False \<Rightarrow> Threw AssertionError
      | Inr True \<Rightarrow>
          (let e = enter mathText e; e = enter mathTextSequence e; e = consume c e
           in openParenthesis (current e) e))"

definition tokenizeParensMathText :: "tokenizeContext \<Rightarrow> engine \<Rightarrow> result" where
  "tokenizeParensMathText self e = mathText_start self (current e) e"

section \<open>The block recognizer\<close>

text \<open>
  \<open>factorySpace\<close> is the whitespace-skipping helper of the tokenizer library, not among
  the sources.  It opens a span of the given type when the first code is a markdown
  space, consumes spaces while fewer than \<open>max - 1\<close> have been taken (without bound
  when \<open>max\<close> is absent or zero), closes the span and hands the code over to the next
  state.  It is modelled in direct style: it returns the code and the engine with which
  the next state is called.
\<close>

function prefix :: "kind \<Rightarrow> nat option \<Rightarrow> nat \<Rightarrow> code \<Rightarrow> engine \<Rightarrow> code \<times> engine" where
  "prefix ty limit sz c e =
     (if markdownSpace c \<and> (case limit of None \<Rightarrow> True | Some l \<Rightarrow> sz < l) then
        (let e = consume c e in prefix ty limit (Suc sz) (current e) e)
      else (c, exit ty e))"
  by pat_completeness auto
termination
  apply (relation "measure (\<lambda>(ty, limit, sz, c, e). weight c e)")
   apply (auto simp: weight_def current_def consume_def split: list.splits dest!: tl_eq_ConsD)
  done

declare prefix.simps [simp del]

definition factorySpace :: "kind \<Rightarrow> nat option \<Rightarrow> code \<Rightarrow> engine \<Rightarrow> code \<times> engine" where
  "factorySpace ty mx c e =
     (let limit = (case mx of None \<Rightarrow> None | Some m \<Rightarrow> if m = 0 then None else Some (m - 1))
      in if markdownSpace c then prefix ty limit 0 c (enter ty e) else (c, e))"

text \<open>
  \<open>effects.attempt(construct, ok, nok)\<close> runs a construct speculatively.  When the
  construct reaches \<open>ok\<close> its effects are kept, when it reaches \<open>nok\<close> the engine is
  put back as it was; either way the next state is called with the code at the engine's
  position.  A closure variable of the caller is not part of the engine and keeps the
  value the attempt gave it.
\<close>

definition attempt :: "(code \<Rightarrow> engine \<Rightarrow> result) \<Rightarrow> code \<Rightarrow> engine \<Rightarrow> result" where
  "attempt construct c e =
     (case construct c e of
        Ok c' e' \<Rightarrow> Ok (current e') e'
      | Nok c' e' \<Rightarrow> Nok (current e) e
      | Threw err \<Rightarrow> Threw err)"

subsection \<open>\<open>tokenizeNonLazyContinuation\<close>\<close>

definition lineStart :: "tokenizeContext \<Rightarrow> code \<Rightarrow> engine \<Rightarrow> result" where
  "lineStart self c e = (if ctx_lazy self (line e) then Nok c e else Ok c e)"

definition tokenizeNonLazyContinuation :: "tokenizeContext \<Rightarrow> code \<Rightarrow> engine \<Rightarrow> result" where
  "tokenizeNonLazyContinuation self c e =
     (if c = None then Ok c e
      else if \<not> markdownLineEnding c then Threw AssertionError
      else
        (let e = enter lineEnding e; e = consume c e; e = exit lineEnding e
         in lineStart self (current e) e))"

subsection \<open>\<open>tokenizeClosingFence\<close>\<close>

text \<open>
  The closing-fence tokenizer writes the closure variable \<open>foundClosingBracket\<close> of the
  enclosing recognizer; the functions below take its value and return the new one beside
  their result.
\<close>

definition afterSequenceClose :: "code \<Rightarrow> engine \<Rightarrow> result" where
  "afterSequenceClose c e =
     (if c = codes_eof \<or> markdownLineEnding c then Ok c (exit mathFlowFence e) else Nok c e)"

function sequenceClose :: "bool \<Rightarrow> code \<Rightarrow> engine \<Rightarrow> bool \<Rightarrow> result \<times> bool" where
  "sequenceClose False c e found =
     (if c = codes_backslash then
        (let e = consume c e in sequenceClose True (current e) e found)
      else (Nok c e, found))"
| "sequenceClose True c e found =
     (if c = codes_rightSquareBracket then
        (let e = consume c e; e = exit mathFlowFenceSequence e;
             (c', e') = factorySpace whitespace None (current e) e
         in (afterSequenceClose c' e', True))
      else (Nok c e, found))"
  by pat_completeness auto
termination
  by (relation "measure (\<lambda>(foundBackslash, c, e, found). if foundBackslash then 0 else 1)") auto

definition beforeSequenceClose :: "code \<Rightarrow> engine \<Rightarrow> bool \<Rightarrow> result \<times> bool" where
  "beforeSequenceClose c e found =
     (let e = enter mathFlowFence e; e = enter mathFlowFenceSequence e
      in sequenceClose False c e found)"

definition tokenizeClosingFence ::
  "tokenizeContext \<Rightarrow> code \<Rightarrow> engine \<Rightarrow> bool \<Rightarrow> result \<times> bool" where
  "tokenizeClosingFence self c e found =
     (case ctx_disable_null self of
        None \<Rightarrow> (Threw AssertionError, found)
      | Some disabled \<Rightarrow>
          (let (c', e') = factorySpace linePrefix
                 (if ''codeIndented'' \<in> set disabled then None else Some constants_tabSize) c e
           in beforeSequenceClose c' e' found))"

subsection \<open>\<open>tokenizeMathBracketFlow\<close>\<close>

definition after :: "code \<Rightarrow> engine \<Rightarrow> bool \<Rightarrow> result \<times> bool" where
  "after c e found =
     (if c = codes_eof \<and> \<not> found then (Nok c e, found)
      else (Ok c (exit mathFlow e), found))"

lemma prefix_weight: "prefix ty limit sz c e = (c', e') \<Longrightarrow> weight c' e' \<le> weight c e"
proof (induction ty limit sz c e rule: prefix.induct)
  case (1 ty limit sz c e)
  show ?case
  proof (cases "markdownSpace c \<and> (case limit of None \<Rightarrow> True | Some l \<Rightarrow> sz < l)")
    case True
    then have "c \<noteq> None" by (cases c) simp_all
    then have "weight (current (consume c e)) (consume c e) \<le> weight c e"
      by (cases "rest e")
         (simp_all add: weight_def current_def consume_def split: list.splits)
    moreover have "prefix ty limit (Suc sz) (current (consume c e)) (consume c e) = (c', e')"
      using "1.prems" True by (subst (asm) prefix.simps) (simp add: Let_def)
    then have "weight c' e' \<le> weight (current (consume c e)) (consume c e)"
      using "1.IH" True by simp
    ultimately show ?thesis by simp
  next
    case False
    with "1.prems" have "c' = c \<and> e' = exit ty e"
      by (subst (asm) prefix.simps) auto
    then show ?thesis by (simp add: weight_def exit_def)
  qed
qed

lemma factorySpace_weight: "factorySpace ty mx c e = (c', e') \<Longrightarrow> weight c' e' \<le> weight c e"
proof (cases "markdownSpace c")
  case True
  assume "factorySpace ty mx c e = (c', e')"
  with True obtain limit where "prefix ty limit 0 c (enter ty e) = (c', e')"
    by (simp add: factorySpace_def Let_def)
  then have "weight c' e' \<le> weight c (enter ty e)" by (rule prefix_weight)
  then show ?thesis by (simp add: weight_def enter_def)
next
  case False
  assume "factorySpace ty mx c e = (c', e')"
  with False show ?thesis by (simp add: factorySpace_def Let_def)
qed

lemma nonLazy_weight:
  assumes "attempt (tokenizeNonLazyContinuation self) c e = Ok c' e'" and "markdownLineEnding c"
  shows "c' = current e' \<and> weight c' e' < weight c e"
proof -
  let ?e = "exit lineEnding (consume c (enter lineEnding e))"
  from assms(2) have c: "c \<noteq> None" by (cases c) simp_all
  with assms have "c' = current ?e \<and> e' = ?e"
    by (auto simp: attempt_def tokenizeNonLazyContinuation_def lineStart_def Let_def
        split: if_splits)
  moreover have "weight (current ?e) ?e < weight c e"
    using c by (cases "rest e")
      (simp_all add: weight_def current_def enter_def exit_def consume_def split: list.splits)
  ultimately show ?thesis by simp
qed

function beforeNonLazyContinuation ::
    "tokenizeContext \<Rightarrow> code \<Rightarrow> engine \<Rightarrow> bool \<Rightarrow> result \<times> bool"
  and contentStart :: "tokenizeContext \<Rightarrow> code \<Rightarrow> engine \<Rightarrow> bool \<Rightarrow> result \<times> bool"
  and beforeContentChunk :: "tokenizeContext \<Rightarrow> code \<Rightarrow> engine \<Rightarrow> bool \<Rightarrow> result \<times> bool"
  and contentChunk :: "tokenizeContext \<Rightarrow> code \<Rightarrow> engine \<Rightarrow> bool \<Rightarrow> result \<times> bool"
where
  "beforeNonLazyContinuation self c e found =
     (case tokenizeClosingFence self c e found of
        (Ok c' e', found') \<Rightarrow> after (current e') e' found'
      | (Nok c' e', found') \<Rightarrow> contentStart self (current e) e found'
      | (Threw err, found') \<Rightarrow> (Threw err, found'))"
| "contentStart self c e found =
     (if ctx_initialSize self \<noteq> 0 then
        (case factorySpace linePrefix (Some (ctx_initialSize self + 1)) c e of
           (c', e') \<Rightarrow> beforeContentChunk self c' e' found)
      else beforeContentChunk self c e found)"
| "beforeContentChunk self c e found =
     (if c = codes_eof then after c e found
      else if markdownLineEnding c then
        (case attempt (tokenizeNonLazyContinuation self) c e of
           Ok c' e' \<Rightarrow> beforeNonLazyContinuation self c' e' found
         | Nok c' e' \<Rightarrow> after c' e' found
         | Threw err \<Rightarrow> (Threw err, found))
      else contentChunk self c (enter mathFlowValue e) found)"
| "contentChunk self c e found =
     (if c = codes_eof \<or> markdownLineEnding c then
        beforeContentChunk self c (exit mathFlowValue e) found
      else
        (let e = consume c e in contentChunk self (current e) e found))"
  by pat_completeness auto
termination
  apply (relation "measure (\<lambda>x. case x of
      Inl (Inl (self, c, e, found)) \<Rightarrow> 5 * weight (current e) e + 4
    | Inl (Inr (self, c, e, found)) \<Rightarrow> 5 * weight c e + 3
    | Inr (Inl (self, c, e, found)) \<Rightarrow> 5 * weight c e +
        (if c = codes_eof \<or> markdownLineEnding c then 1 else 2)
    | Inr (Inr (self, c, e, found)) \<Rightarrow> 5 * weight c e +
        (if c = codes_eof \<or> markdownLineEnding c then 2 else 1))")
  subgoal by simp
  subgoal by simp
  subgoal for self c e found c' e'
    using factorySpace_weight[of linePrefix "Some (ctx_initialSize self + 1)" c e c' e']
    by (simp split: if_splits)
  subgoal by simp
  subgoal for self c e found c' e'
    using nonLazy_weight[of self c e c' e'] by (auto simp: codes_defs)
  subgoal by (simp add: weight_def enter_def codes_defs)
  subgoal by (simp add: weight_def exit_def codes_defs)
  subgoal for self c e found
    by (cases "rest e"; cases c)
       (simp_all add: weight_def current_def consume_def codes_defs split: list.splits)
  done

declare beforeNonLazyContinuation.simps [simp del] contentStart.simps [simp del]
  beforeContentChunk.simps [simp del] contentChunk.simps [simp del]

definition metaAfter :: "tokenizeContext \<Rightarrow> code \<Rightarrow> engine \<Rightarrow> bool \<Rightarrow> result \<times> bool" where
  "metaAfter self c e found =
     (let e = exit mathFlowFence e
      in if ctx_interrupt self then (Ok c e, found)
         else
           (case attempt (tokenizeNonLazyContinuation self) c e of
              Ok c' e' \<Rightarrow> beforeNonLazyContinuation self c' e' found
            | Nok c' e' \<Rightarrow> after c' e' found
            | Threw err \<Rightarrow> (Threw err, found)))"

function meta :: "tokenizeContext \<Rightarrow> code \<Rightarrow> engine \<Rightarrow> bool \<Rightarrow> result \<times> bool" where
  "meta self c e found =
     (if c = codes_eof \<or> markdownLineEnding c then
        (let e = exit chunkString e; e = exit mathFlowFenceMeta e
         in metaAfter self c e found)
      else if c = codes_rightSquareBracket then (Nok c e, found)
      else
        (let e = consume c e in meta self (current e) e found))"
  by pat_completeness auto
termination
  apply (relation "measure (\<lambda>(self, c, e, found). weight c e)")
   apply (auto simp: weight_def current_def consume_def codes_defs
      split: list.splits dest!: tl_eq_ConsD)
  done

declare meta.simps [simp del]

definition metaBefore :: "tokenizeContext \<Rightarrow> code \<Rightarrow> engine \<Rightarrow> bool \<Rightarrow> result \<times> bool" where
  "metaBefore self c e found =
     (if c = codes_eof \<or> markdownLineEnding c then metaAfter self c e found
      else
        (let e = enter mathFlowFenceMeta e; e = enter chunkString e
         in meta self c e found))"

definition openBracket :: "tokenizeContext \<Rightarrow> code \<Rightarrow> engine \<Rightarrow> bool \<Rightarrow> result \<times> bool" where
  "openBracket self c e found =
     (if c = codes_leftSquareBracket then
        (let e = consume c e; e = exit mathFlowFenceSequence e;
             (c', e') = factorySpace whitespace None (current e) e
         in metaBefore self c' e' found)
      else (Nok c e, found))"

definition mathFlow_start :: "tokenizeContext \<Rightarrow> code \<Rightarrow> engine \<Rightarrow> bool \<Rightarrow> result \<times> bool" where
  "mathFlow_start self c e found =
     (if c \<noteq> codes_backslash then (Threw AssertionError, found)
      else
        (let e = enter mathFlow e; e = enter mathFlowFence e;
             e = enter mathFlowFenceSequence e; e = consume c e
         in openBracket self (current e) e found))"

text \<open>
  The recognizer starts with \<open>foundClosingBracket\<close> unset.  \<open>initialSize\<close>, the width of
  the line prefix before the opening fence, is read from the context (the source computes
  it from the last event with the engine's serializer).
\<close>

definition tokenizeMathBracketFlow :: "tokenizeContext \<Rightarrow> engine \<Rightarrow> result \<times> bool" where
  "tokenizeMathBracketFlow self e = mathFlow_start self (current e) e False"

section \<open>Events and spans\<close>

text \<open>
  The event stream of a run is the sequence of \<open>enter\<close> and \<open>exit\<close> calls it made.
  \<open>nest\<close> replays a sequence against a stack of open spans: an \<open>exit\<close> must name the
  kind of the span opened last.  The stream is well nested when the replay succeeds and
  leaves nothing open.
\<close>

fun is_event :: "action \<Rightarrow> bool" where
  "is_event (Enter k) = True"
| "is_event (Exit k) = True"
| "is_event (Consume c) = False"

fun nest :: "kind list \<Rightarrow> action list \<Rightarrow> kind list option" where
  "nest st [] = Some st"
| "nest st (Enter k # as) = nest (k # st) as"
| "nest st (Exit k # as) =
     (case st of [] \<Rightarrow> None | t # st' \<Rightarrow> if t = k then nest st' as else None)"
| "nest st (Consume c # as) = nest st as"

definition well_nested :: "action list \<Rightarrow> bool" where
  "well_nested tr = (nest [] tr = Some [])"

text \<open>What a run added to the engine's log, and how many events that is.\<close>

definition emitted :: "engine \<Rightarrow> engine \<Rightarrow> action list" where
  "emitted e e' = drop (length (log e)) (log e')"

definition nev :: "engine \<Rightarrow> nat" where
  "nev e = length (filter is_event (log e))"

text \<open>
  The engine turns the calls into events that refer to tokens.  An event is a phase and
  a reference to a token; the \<open>enter\<close> and the \<open>exit\<close> event of a span refer to the same
  token, so that a change made through one is seen through the other.  Tokens live in a
  store, a reference is an index into it.  A position is the number of codes consumed
  before it.  \<open>exit\<close> closes the span opened last; the interface requires its kind to
  be the one named, and here a call that breaks this yields no event list.
\<close>

datatype phase = EnterEvent | ExitEvent

record token =
  ttype :: kind
  tstart :: nat
  tend :: nat

type_synonym event = "phase \<times> nat"

record builder =
  b_offset :: nat
  b_stack :: "nat list"
  b_events :: "event list"
  b_tokens :: "token list"

fun build_step :: "builder \<Rightarrow> action \<Rightarrow> builder option" where
  "build_step b (Enter k) =
     Some (b\<lparr>b_stack := length (b_tokens b) # b_stack b,
             b_events := b_events b @ [(EnterEvent, length (b_tokens b))],
             b_tokens := b_tokens b @ [\<lparr>ttype = k, tstart = b_offset b, tend = b_offset b\<rparr>]\<rparr>)"
| "build_step b (Exit k) =
     (case b_stack b of
        [] \<Rightarrow> None
      | i # st \<Rightarrow>
          if ttype (b_tokens b ! i) = k then
            Some (b\<lparr>b_stack := st,
                    b_events := b_events b @ [(ExitEvent, i)],
                    b_tokens := (b_tokens b)[i := (b_tokens b ! i)\<lparr>tend := b_offset b\<rparr>]\<rparr>)
          else None)"
| "build_step b (Consume c) = Some (b\<lparr>b_offset := Suc (b_offset b)\<rparr>)"

fun build :: "builder \<Rightarrow> action list \<Rightarrow> builder option" where
  "build b [] = Some b"
| "build b (a # as) = (case build_step b a of None \<Rightarrow> None | Some b' \<Rightarrow> build b' as)"

definition events_of :: "action list \<Rightarrow> (event list \<times> token list) option" where
  "events_of tr =
     (case build \<lparr>b_offset = 0, b_stack = [], b_events = [], b_tokens = []\<rparr> tr of
        None \<Rightarrow> None
      | Some b \<Rightarrow> Some (b_events b, b_tokens b))"

section \<open>The resolver\<close>

text \<open>
  \<open>events[i][1].type\<close>: reading past the end of the list gives \<open>undefined\<close>, and the
  property access on it throws.
\<close>

definition typeAt :: "event list \<Rightarrow> token list \<Rightarrow> nat \<Rightarrow> kind option" where
  "typeAt events tokens i =
     (if i < length events then Some (ttype (tokens ! snd (events ! i))) else None)"

definition setType :: "event list \<Rightarrow> token list \<Rightarrow> nat \<Rightarrow> kind \<Rightarrow> token list" where
  "setType events tokens i k =
     tokens[snd (events ! i) := (tokens ! snd (events ! i))\<lparr>ttype := k\<rparr>]"

definition setEnd :: "event list \<Rightarrow> token list \<Rightarrow> nat \<Rightarrow> nat \<Rightarrow> token list" where
  "setEnd events tokens i p =
     tokens[snd (events ! i) := (tokens ! snd (events ! i))\<lparr>tend := p\<rparr>]"

text \<open>\<open>events.splice(start, deleteCount)\<close>; a negative count deletes nothing.\<close>

definition splice :: "nat \<Rightarrow> int \<Rightarrow> 'a list \<Rightarrow> 'a list" where
  "splice start deleteCount xs = take start xs @ drop (start + nat deleteCount) xs"

text \<open>
  The first loop, \<open>while (++index < tailExitIndex)\<close>: is there an event of type
  \<open>mathTextData\<close> strictly between the two indices?  The loop changes nothing before it
  finds one, and then breaks.
\<close>

function haveData :: "event list \<Rightarrow> token list \<Rightarrow> nat \<Rightarrow> nat \<Rightarrow> error + bool" where
  "haveData events tokens index tailExitIndex =
     (let index = index + 1
      in if index < tailExitIndex then
           (case typeAt events tokens index of
              None \<Rightarrow> Inl TypeError
            | Some k \<Rightarrow>
                if k = mathTextData then Inr True
                else haveData events tokens index tailExitIndex)
         else Inr False)"
  by pat_completeness auto
termination
  by (relation "measure (\<lambda>(events, tokens, index, tailExitIndex). tailExitIndex - index)") auto

declare haveData.simps [simp del]

text \<open>
  The second loop, \<open>while (++index <= tailExitIndex)\<close>, with \<open>enter\<close> the start of the
  run being collected (\<open>undefined\<close> is \<open>None\<close>).
\<close>

function mergeLoop ::
  "event list \<Rightarrow> token list \<Rightarrow> nat \<Rightarrow> nat \<Rightarrow> nat option \<Rightarrow> error + event list \<times> token list"
where
  "mergeLoop events tokens index tailExitIndex enter' =
     (let index = index + 1
      in if index \<le> tailExitIndex then
           (case enter' of
              None \<Rightarrow>
                if index \<noteq> tailExitIndex then
                  (case typeAt events tokens index of
                     None \<Rightarrow> Inl TypeError
                   | Some k \<Rightarrow>
                       mergeLoop events tokens index tailExitIndex
                         (if k \<noteq> lineEnding then Some index else None))
                else mergeLoop events tokens index tailExitIndex None
            | Some en \<Rightarrow>
                if index \<noteq> tailExitIndex \<and> typeAt events tokens index = None then Inl TypeError
                else if index = tailExitIndex \<or> typeAt events tokens index = Some lineEnding then
                  (if length events \<le> en then Inl TypeError
                   else
                     (let tokens = setType events tokens en mathTextData
                      in if index \<noteq> en + 2 then
                           (if length events \<le> index - 1 then Inl TypeError
                            else
                              (let tokens = setEnd events tokens en
                                     (tend (tokens ! snd (events ! (index - 1))));
                                   deleteCount = int index - int en - 2;
                                   events = splice (en + 2) deleteCount events;
                                   tailExitIndex = nat (int tailExitIndex - deleteCount);
                                   index = en + 2
                               in mergeLoop events tokens index tailExitIndex None))
                         else mergeLoop events tokens index tailExitIndex None))
                else mergeLoop events tokens index tailExitIndex (Some en))
         else Inr (events, tokens))"
  by pat_completeness auto
termination
  by (relation "measure (\<lambda>(events, tokens, index, tailExitIndex, enter'). tailExitIndex - index)")
     auto

declare mergeLoop.simps [simp del]

definition edge :: "kind option \<Rightarrow> bool" where
  "edge k = (k = Some lineEnding \<or> k = Some space)"

definition resolveMathText ::
  "event list \<times> token list \<Rightarrow> error + event list \<times> token list" where
  "resolveMathText input =
     (let (events, tokens) = input;
          tailExitIndex = length events - 4;
          headEnterIndex = 3
      in if typeAt events tokens headEnterIndex = None then Inl TypeError
         else if edge (typeAt events tokens headEnterIndex)
                 \<and> edge (typeAt events tokens tailExitIndex) then
           (case haveData events tokens headEnterIndex tailExitIndex of
              Inl err \<Rightarrow> Inl err
            | Inr True \<Rightarrow>
                (let tokens = setType events tokens tailExitIndex mathTextPadding;
                     tokens = setType events tokens headEnterIndex mathTextPadding
                 in mergeLoop events tokens (headEnterIndex + 2 - 1) (tailExitIndex - 2 + 1) None)
            | Inr False \<Rightarrow>
                mergeLoop events tokens (headEnterIndex - 1) (tailExitIndex + 1) None)
         else mergeLoop events tokens (headEnterIndex - 1) (tailExitIndex + 1) None)"

section \<open>Sample contexts and inputs\<close>

text \<open>
  A context with nothing before the construct, not interrupting, no lazy line, no
  disabled construct and no line prefix; an engine at the start of a given input; and
  the event list the engine hands to the resolver for an input the inline recognizer
  accepts.
\<close>

definition plainContext :: tokenizeContext where
  "plainContext =
     \<lparr>ctx_previous = None, ctx_events = [], ctx_interrupt = False, ctx_lazy = (\<lambda>n. False),
      ctx_disable_null = Some [], ctx_initialSize = 0\<rparr>"

definition atStart :: "int list \<Rightarrow> engine" where
  "atStart cs = \<lparr>rest = cs, line = 1, log = []\<rparr>"

definition inlineEvents :: "int list \<Rightarrow> (event list \<times> token list) option" where
  "inlineEvents cs =
     (case tokenizeParensMathText plainContext (atStart cs) of
        Ok c e \<Rightarrow> events_of (log e)
      | Nok c e \<Rightarrow> None
      | Threw err \<Rightarrow> None)"

text \<open>
  The token stores of three accepted inputs: \<open>\\( a \\)\<close>, \<open>\\(   \\)\<close> (three spaces)
  and \<open>\\(a  b\\)\<close>.
\<close>

definition tokens_padded_a :: "token list" where
  "tokens_padded_a =
     [\<lparr>ttype = mathText, tstart = 0, tend = 7\<rparr>,
      \<lparr>ttype = mathTextSequence, tstart = 0, tend = 2\<rparr>,
      \<lparr>ttype = space, tstart = 2, tend = 3\<rparr>,
      \<lparr>ttype = mathTextData, tstart = 3, tend = 4\<rparr>,
      \<lparr>ttype = space, tstart = 4, tend = 5\<rparr>,
      \<lparr>ttype = mathTextSequence, tstart = 5, tend = 7\<rparr>]"

definition tokens_three_spaces :: "token list" where
  "tokens_three_spaces =
     [\<lparr>ttype = mathText, tstart = 0, tend = 7\<rparr>,
      \<lparr>ttype = mathTextSequence, tstart = 0, tend = 2\<rparr>,
      \<lparr>ttype = space, tstart = 2, tend = 3\<rparr>,
      \<lparr>ttype = space, tstart = 3, tend = 4\<rparr>,
      \<lparr>ttype = space, tstart = 4, tend = 5\<rparr>,
      \<lparr>ttype = mathTextSequence, tstart = 5, tend = 7\<rparr>]"

definition tokens_a_b :: "token list" where
  "tokens_a_b =
     [\<lparr>ttype = mathText, tstart = 0, tend = 8\<rparr>,
      \<lparr>ttype = mathTextSequence, tstart = 0, tend = 2\<rparr>,
      \<lparr>ttype = mathTextData, tstart = 2, tend = 3\<rparr>,
      \<lparr>ttype = space, tstart = 3, tend = 4\<rparr>,
      \<lparr>ttype = space, tstart = 4, tend = 5\<rparr>,
      \<lparr>ttype = mathTextData, tstart = 5, tend = 6\<rparr>,
      \<lparr>ttype = mathTextSequence, tstart = 6, tend = 8\<rparr>]"

section \<open>Vocabulary of the statements and proofs\<close>

text \<open>\<open>ran e e' n\<close>: the engine \<open>e'\<close> is \<open>e\<close> after at least \<open>n\<close> more events.\<close>

definition ran :: "engine \<Rightarrow> engine \<Rightarrow> nat \<Rightarrow> bool" where
  "ran e e' n = (\<exists>tr. log e' = log e @ tr \<and> n \<le> length (filter is_event tr))"

definition text_end :: "code \<Rightarrow> bool" where
  "text_end c = (c = codes_eof \<or> c = codes_space \<or> c = codes_backslash \<or> markdownLineEnding c)"

definition flow_end :: "code \<Rightarrow> bool" where
  "flow_end c = (c = codes_eof \<or> markdownLineEnding c)"

definition is_space :: "int \<Rightarrow> bool" where
  "is_space x = markdownSpace (Some x)"

definition meta_text :: "int list \<Rightarrow> bool" where
  "meta_text m = (\<forall>x \<in> set m. \<not> markdownLineEnding (Some x) \<and> Some x \<noteq> codes_rightSquareBracket)"

text \<open>
  The inline recognizer takes its degrade path when \<open>closeParenthesis\<close> is handed a code
  other than a right parenthesis: it then enters \<open>mathTextData\<close> directly after the
  backslash was consumed.  Nowhere else does the recognizer enter \<open>mathTextData\<close> right
  after a \<open>consume\<close>, so the path shows in the log as a \<open>Consume\<close> followed by
  \<open>Enter mathTextData\<close>.
\<close>

fun degrades_from :: "bool \<Rightarrow> action list \<Rightarrow> bool" where
  "degrades_from p [] = False"
| "degrades_from p (Enter k # as) = ((p \<and> k = mathTextData) \<or> degrades_from False as)"
| "degrades_from p (Exit k # as) = degrades_from False as"
| "degrades_from p (Consume c # as) = degrades_from True as"

definition degrades :: "action list \<Rightarrow> bool" where
  "degrades tr = degrades_from False tr"

definition closes :: "engine \<Rightarrow> engine \<Rightarrow> bool \<Rightarrow> kind list \<Rightarrow> bool" where
  "closes e e' p S =
     (\<exists>tr. log e' = log e @ tr \<and> (\<not> degrades_from p tr \<longrightarrow> nest S tr = Some []))"

definition adds :: "engine \<Rightarrow> engine \<Rightarrow> kind list \<Rightarrow> kind list \<Rightarrow> bool" where
  "adds e e' S S' = (\<exists>tr. log e' = log e @ tr \<and> nest S tr = Some S')"

definition left_open :: "tokenizeContext \<Rightarrow> kind list" where
  "left_open self = (if ctx_interrupt self then [mathFlow] else [])"

fun spans :: "nat list \<Rightarrow> event list" where
  "spans [] = []"
| "spans (i # is) = (EnterEvent, i) # (ExitEvent, i) # spans is"

definition frame :: "nat \<Rightarrow> nat \<Rightarrow> nat list \<Rightarrow> nat \<Rightarrow> event list" where
  "frame m opening ids closing =
     [(EnterEvent, m), (EnterEvent, opening), (ExitEvent, opening)] @ spans ids @
     [(EnterEvent, closing), (ExitEvent, closing), (ExitEvent, m)]"

definition closeRun :: "token list \<Rightarrow> nat \<Rightarrow> nat \<Rightarrow> token list" where
  "closeRun tokens r l =
     (let tokens = tokens[r := (tokens ! r)\<lparr>ttype := mathTextData\<rparr>]
      in tokens[r := (tokens ! r)\<lparr>tend := tend (tokens ! l)\<rparr>])"

fun mergeSpans :: "token list \<Rightarrow> nat list \<Rightarrow> nat list \<times> token list"
  and mergeRun :: "token list \<Rightarrow> nat \<Rightarrow> nat \<Rightarrow> nat list \<Rightarrow> nat list \<times> token list"
where
  "mergeSpans tokens [] = ([], tokens)"
| "mergeSpans tokens (w # ws) =
     (if ttype (tokens ! w) = lineEnding then
        (case mergeSpans tokens ws of (ws', tokens') \<Rightarrow> (w # ws', tokens'))
      else mergeRun tokens w w ws)"
| "mergeRun tokens r l [] = ([r], closeRun tokens r l)"
| "mergeRun tokens r l (w # ws) =
     (if ttype (tokens ! w) = lineEnding then
        (case mergeSpans (closeRun tokens r l) ws of (ws', tokens') \<Rightarrow> (r # w # ws', tokens'))
      else mergeRun tokens r w ws)"

definition edgeKind :: "kind \<Rightarrow> bool" where
  "edgeKind k = (k = lineEnding \<or> k = space)"

definition padded :: "token list \<Rightarrow> nat list \<Rightarrow> bool" where
  "padded tokens ids =
     (ids \<noteq> [] \<and> edgeKind (ttype (tokens ! hd ids)) \<and> edgeKind (ttype (tokens ! last ids)) \<and>
      (\<exists>i \<in> set (butlast (tl ids)). ttype (tokens ! i) = mathTextData))"

definition both_edges :: "token list \<Rightarrow> nat list \<Rightarrow> bool" where
  "both_edges tokens ids =
     (ids \<noteq> [] \<and> edgeKind (ttype (tokens ! hd ids)) \<and> edgeKind (ttype (tokens ! last ids)))"

definition resolveSpans :: "token list \<Rightarrow> nat list \<Rightarrow> nat list \<times> token list" where
  "resolveSpans tokens ids =
     (if padded tokens ids then
        (let x = hd ids; y = last ids;
             tokens = tokens[y := (tokens ! y)\<lparr>ttype := mathTextPadding\<rparr>];
             tokens = tokens[x := (tokens ! x)\<lparr>ttype := mathTextPadding\<rparr>]
         in case mergeSpans tokens (butlast (tl ids)) of
              (mid, tokens') \<Rightarrow> (x # mid @ [y], tokens'))
      else mergeSpans tokens ids)"

function coalesce :: "token list \<Rightarrow> token list" where
  "coalesce [] = []"
| "coalesce (s # ss) =
     (if ttype s = lineEnding then s # coalesce ss
      else \<lparr>ttype = mathTextData, tstart = tstart s,
             tend = tend (last (s # takeWhile (\<lambda>u. ttype u \<noteq> lineEnding) ss))\<rparr>
           # coalesce (dropWhile (\<lambda>u. ttype u \<noteq> lineEnding) ss))"
  by pat_completeness auto
termination
  by (relation "measure length") (auto simp: less_Suc_eq_le length_dropWhile_le)

definition valid_inline :: "nat \<Rightarrow> nat \<Rightarrow> nat list \<Rightarrow> nat \<Rightarrow> token list \<Rightarrow> bool" where
  "valid_inline m opening ids closing tokens =
     (distinct (m # opening # closing # ids) \<and>
      (\<forall>i \<in> set (m # opening # closing # ids). i < length tokens) \<and>
      ttype (tokens ! m) = mathText \<and>
      ttype (tokens ! opening) = mathTextSequence \<and>
      ttype (tokens ! closing) = mathTextSequence \<and>
      (\<forall>i \<in> set ids. ttype (tokens ! i) \<in> {space, lineEnding, mathTextData}))"

definition inner :: "bool \<Rightarrow> nat list \<Rightarrow> nat list" where
  "inner p ids = (if p then butlast (tl ids) else ids)"

text \<open>The store after the two edge spans were re-tagged.\<close>

definition pad_edges :: "token list \<Rightarrow> nat \<Rightarrow> nat \<Rightarrow> token list" where
  "pad_edges tokens x y =
     (let tokens = tokens[y := (tokens ! y)\<lparr>ttype := mathTextPadding\<rparr>]
      in tokens[x := (tokens ! x)\<lparr>ttype := mathTextPadding\<rparr>])"

text \<open>
  The shape of the log of an accepted inline run that does not take the degrade path: the
  opening fence, then one item per interior span (an \<open>enter\<close>, the codes consumed, the
  \<open>exit\<close>), then the closing fence.  \<open>item_tokens\<close> are the tokens of the items, \<open>refs\<close>
  their references in the store and \<open>width\<close> the number of codes they cover.
\<close>

fun item :: "kind \<times> code list \<Rightarrow> action list" where
  "item (k, cs) = Enter k # map Consume cs @ [Exit k]"

definition content_kind :: "kind \<Rightarrow> bool" where
  "content_kind k = (k = space \<or> k = lineEnding \<or> k = mathTextData)"

definition opening_fence :: "action list" where
  "opening_fence =
     [Enter mathText, Enter mathTextSequence, Consume codes_backslash,
      Consume codes_leftParenthesis, Exit mathTextSequence]"

definition closing_fence :: "action list" where
  "closing_fence =
     [Enter mathTextSequence, Consume codes_backslash, Consume codes_rightParenthesis,
      Exit mathTextSequence, Exit mathText]"

definition content_log :: "(kind \<times> code list) list \<Rightarrow> action list" where
  "content_log xs = concat (map item xs) @ closing_fence"

fun item_tokens :: "nat \<Rightarrow> (kind \<times> code list) list \<Rightarrow> token list" where
  "item_tokens off [] = []"
| "item_tokens off ((k, cs) # xs) =
     \<lparr>ttype = k, tstart = off, tend = off + length cs\<rparr> # item_tokens (off + length cs) xs"

fun refs :: "nat \<Rightarrow> 'a list \<Rightarrow> nat list" where
  "refs n [] = []"
| "refs n (x # xs) = n # refs (Suc n) xs"

fun width :: "(kind \<times> code list) list \<Rightarrow> nat" where
  "width [] = 0"
| "width ((k, cs) # xs) = length cs + width xs"

text \<open>
  A closing-fence attempt is stale when it matches the \<open>\\]\<close> (and so sets
  \<open>foundClosingBracket\<close>) and then fails on the rest of the line.  The attempts of a run
  are made at the line starts of its input, the positions after a line ending;
  \<open>no_stale_attempt\<close> says that none of them is stale.  \<open>closing_sequence\<close> are the calls
  of a matched closing sequence, \<open>fence_space\<close> the calls of the whitespace after it, and
  \<open>fenced e e'\<close> says that the run from \<open>e\<close> to \<open>e'\<close> ended with a closing fence and the
  exit of \<open>mathFlow\<close>.
\<close>

fun is_nok :: "result \<Rightarrow> bool" where
  "is_nok (Nok c e) = True"
| "is_nok (Ok c e) = False"
| "is_nok (Threw err) = False"

fun line_starts :: "int list \<Rightarrow> int list list" where
  "line_starts [] = []"
| "line_starts (x # xs) =
     (if markdownLineEnding (Some x) then xs # line_starts xs else line_starts xs)"

definition stale_attempt :: "tokenizeContext \<Rightarrow> int list \<Rightarrow> bool" where
  "stale_attempt self cs =
     (case tokenizeClosingFence self (current (atStart cs)) (atStart cs) False of
        (r, found) \<Rightarrow> is_nok r \<and> found)"

definition no_stale_attempt :: "tokenizeContext \<Rightarrow> int list \<Rightarrow> bool" where
  "no_stale_attempt self cs = list_all (\<lambda>l. \<not> stale_attempt self l) (line_starts cs)"

definition closing_sequence :: "action list" where
  "closing_sequence =
     [Enter mathFlowFence, Enter mathFlowFenceSequence, Consume codes_backslash,
      Consume codes_rightSquareBracket, Exit mathFlowFenceSequence]"

fun fence_space :: "action \<Rightarrow> bool" where
  "fence_space (Enter k) = (k = whitespace)"
| "fence_space (Exit k) = (k = whitespace)"
| "fence_space (Consume c) = markdownSpace c"

definition fenced :: "engine \<Rightarrow> engine \<Rightarrow> bool" where
  "fenced e e' =
     (\<exists>pre ws. log e' = log e @ pre @ closing_sequence @ ws @
          [Exit mathFlowFence, Exit mathFlow] \<and> list_all fence_space ws)"

section \<open>Basic facts about the engine\<close>

lemma markdownLineEnding_not_eof [simp]: "markdownLineEnding c \<Longrightarrow> c \<noteq> None"
  by (cases c) simp_all

lemma log_simps [simp]:
  "log (enter k e) = log e @ [Enter k]"
  "log (exit k e) = log e @ [Exit k]"
  "log (consume c e) = log e @ [Consume c]"
  by (simp_all add: enter_def exit_def consume_def)

lemma rest_simps [simp]:
  "rest (enter k e) = rest e"
  "rest (exit k e) = rest e"
  "rest (consume c e) = tl (rest e)"
  by (simp_all add: enter_def exit_def consume_def)

lemma current_simps [simp]:
  "current (enter k e) = current e"
  "current (exit k e) = current e"
  by (simp_all add: current_def)

lemma ran_step:
  "ran (enter k e) e' n \<Longrightarrow> ran e e' (Suc n)"
  "ran (exit k e) e' n \<Longrightarrow> ran e e' (Suc n)"
  "ran (consume c e) e' n \<Longrightarrow> ran e e' n"
  by (auto simp: ran_def)

lemma ran_mono: "ran e e' n \<Longrightarrow> m \<le> n \<Longrightarrow> ran e e' m"
  by (auto simp: ran_def)

lemma ran_emitted: "ran e e' n \<Longrightarrow> n \<le> length (filter is_event (emitted e e'))"
  by (auto simp: ran_def emitted_def)

section \<open>Induction over the inline state machine\<close>

lemma inline_induct [case_names between closeParenthesis data]:
  assumes B: "\<And>c e.
      \<lbrakk>c = codes_backslash \<Longrightarrow>
         Q (current (consume c (enter mathTextSequence e))) (consume c (enter mathTextSequence e));
       \<lbrakk>c \<noteq> codes_backslash; c = codes_space\<rbrakk> \<Longrightarrow>
         P (current (exit space (consume c (enter space e)))) (exit space (consume c (enter space e)));
       \<lbrakk>c \<noteq> codes_backslash; c \<noteq> codes_space; markdownLineEnding c\<rbrakk> \<Longrightarrow>
         P (current (exit lineEnding (consume c (enter lineEnding e))))
           (exit lineEnding (consume c (enter lineEnding e)));
       \<not> text_end c \<Longrightarrow> R c (enter mathTextData e)\<rbrakk>
      \<Longrightarrow> P c e"
    and C: "\<And>c e.
      (c \<noteq> codes_rightParenthesis \<Longrightarrow>
         R c (exit mathTextSequence (consume c (enter mathTextData e))))
      \<Longrightarrow> Q c e"
    and D: "\<And>c e.
      \<lbrakk>text_end c \<Longrightarrow> P c (exit mathTextData e);
       \<not> text_end c \<Longrightarrow> R (current (consume c e)) (consume c e)\<rbrakk>
      \<Longrightarrow> R c e"
  shows "P c e" and "Q c e" and "R c e"
proof (induction c e and c e and c e rule: between_closeParenthesis_data.induct)
  case (1 c e)
  show ?case
  proof (rule B)
    assume "c = codes_backslash"
    then show "Q (current (consume c (enter mathTextSequence e)))
        (consume c (enter mathTextSequence e))"
      by (intro 1(1)) (simp_all add: codes_defs)
  next
    assume "c \<noteq> codes_backslash" "c = codes_space"
    then show "P (current (exit space (consume c (enter space e))))
        (exit space (consume c (enter space e)))"
      by (intro 1(2)) (simp_all add: codes_defs)
  next
    assume "c \<noteq> codes_backslash" "c \<noteq> codes_space" "markdownLineEnding c"
    then show "P (current (exit lineEnding (consume c (enter lineEnding e))))
        (exit lineEnding (consume c (enter lineEnding e)))"
      by (intro 1(3)) (simp_all add: codes_defs)
  next
    assume "\<not> text_end c"
    then show "R c (enter mathTextData e)"
      by (intro 1(4)) (simp_all add: text_end_def)
  qed
next
  case (2 c e)
  show ?case
    by (rule C; rule 2; (rule refl | simp add: text_end_def codes_defs)+)
next
  case (3 c e)
  show ?case
    by (rule D; rule 3; (rule refl | simp add: text_end_def codes_defs)+)
qed

text \<open>
  Whatever the input, the content loop reaches \<open>ok\<close> only in \<open>closeParenthesis\<close> on a
  right parenthesis, and by then it has added the closing fence to the events.
\<close>

lemma inline_ok_events:
  "\<forall>c' e'. between c e = Ok c' e' \<longrightarrow> c' = codes_rightParenthesis \<and> ran e e' 3"
  "\<forall>c' e'. closeParenthesis c e = Ok c' e' \<longrightarrow> c' = codes_rightParenthesis \<and> ran e e' 2"
  "\<forall>c' e'. data c e = Ok c' e' \<longrightarrow> c' = codes_rightParenthesis \<and> ran e e' 4"
proof (induction c e rule: inline_induct)
  case (between c e)
  then show ?case
    by (subst between.simps)
       (auto simp: Let_def text_end_def dest!: ran_step; erule ran_mono; simp)
next
  case (closeParenthesis c e)
  then show ?case
    by (subst closeParenthesis.simps) (auto simp: Let_def ran_def dest!: ran_step)
next
  case (data c e)
  then show ?case
    by (subst data.simps)
       (auto simp: Let_def text_end_def dest!: ran_step; erule ran_mono; simp)
qed

lemma tokenizeParensMathText_ok:
  assumes "tokenizeParensMathText self e = Ok c e'"
  shows "c = codes_rightParenthesis \<and> ran e e' 6"
proof -
  let ?e = "exit mathTextSequence (consume codes_leftParenthesis
      (consume codes_backslash (enter mathTextSequence (enter mathText e))))"
  from assms have "between (current ?e) ?e = Ok c e'"
    by (auto simp: tokenizeParensMathText_def mathText_start_def openParenthesis_def Let_def
        split: if_splits sum.splits bool.splits)
  with inline_ok_events(1) have "c = codes_rightParenthesis" and "ran ?e e' 3"
    by blast+
  then show ?thesis
    by (auto dest!: ran_step)
qed

section \<open>The event list built from a log\<close>

lemma build_length:
  "build b tr = Some b' \<Longrightarrow>
     length (b_events b') = length (b_events b) + length (filter is_event tr)"
proof (induction tr arbitrary: b)
  case Nil
  then show ?case by simp
next
  case (Cons a tr)
  then obtain b1 where s: "build_step b a = Some b1" and r: "build b1 tr = Some b'"
    by (auto split: option.splits)
  from s have "length (b_events b1) = length (b_events b) + (if is_event a then 1 else 0)"
    by (cases a) (auto split: list.splits if_splits)
  with Cons.IH [OF r] show ?case by simp
qed

lemma events_of_length:
  "events_of tr = Some (events, tokens) \<Longrightarrow> length events = length (filter is_event tr)"
  by (auto simp: events_of_def split: option.splits dest!: build_length)

section \<open>The \<open>previous\<close> predicate\<close>

text \<open>
  C3 (as the code has it).  \<open>previous\<close> lets the inline recognizer start after any code
  that is not a backslash, without looking at the events; after a backslash it lets it
  start exactly when the last event is a character escape.  So a backslash that was
  produced by a character escape permits the construct, and a backslash that was not
  forbids it.
\<close>

theorem previous_after_backslash:
  "(c \<noteq> codes_backslash \<longrightarrow> previous self c = Inr True) \<and>
   (ctx_events self \<noteq> [] \<longrightarrow>
      previous self codes_backslash = Inr (last (ctx_events self) = characterEscape))"
  by (simp add: previous_def)

theorem previous_after_backslash_witness:
  "codes_leftParenthesis \<noteq> codes_backslash \<and>
   previous (plainContext\<lparr>ctx_events := [mathTextData]\<rparr>) codes_leftParenthesis = Inr True \<and>
   ctx_events (plainContext\<lparr>ctx_events := [mathTextData]\<rparr>) \<noteq> [] \<and>
   previous (plainContext\<lparr>ctx_events := [mathTextData]\<rparr>) codes_backslash = Inr False"
  using previous_after_backslash
    [of codes_leftParenthesis "plainContext\<lparr>ctx_events := [mathTextData]\<rparr>"]
  by (simp add: codes_defs plainContext_def)

text \<open>
  C3 (as stated) fails: with a backslash before the construct and a character escape as
  the last event, \<open>previous\<close> answers true, not false.
\<close>

theorem previous_escaped_backslash_fires:
  "previous (plainContext\<lparr>ctx_previous := codes_backslash, ctx_events := [characterEscape]\<rparr>)
     codes_backslash = Inr True"
  by (simp add: previous_def plainContext_def)

section \<open>Size of an accepted inline run\<close>

text \<open>
  C10.  A run of the inline recognizer that reaches \<open>ok\<close> has made at least six
  \<open>enter\<close>/\<open>exit\<close> calls.  The event list built from them has one event per call, so
  the resolver's reads at index 3 and at index \<open>length - 4\<close> find an event.
\<close>

theorem accepted_inline_run_has_six_events:
  assumes "tokenizeParensMathText self e = Ok c e'"
  shows "6 \<le> length (filter is_event (emitted e e')) \<and>
    (\<forall>events tokens. events_of (emitted e e') = Some (events, tokens) \<longrightarrow>
       6 \<le> length events \<and> typeAt events tokens 3 \<noteq> None \<and>
       typeAt events tokens (length events - 4) \<noteq> None)"
proof -
  from assms have n: "6 \<le> length (filter is_event (emitted e e'))"
    by (auto dest!: tokenizeParensMathText_ok ran_emitted)
  moreover have "6 \<le> length events \<and> typeAt events tokens 3 \<noteq> None \<and>
       typeAt events tokens (length events - 4) \<noteq> None"
    if "events_of (emitted e e') = Some (events, tokens)" for events tokens
  proof -
    from that n have "6 \<le> length events" by (simp add: events_of_length)
    then show ?thesis by (simp add: typeAt_def)
  qed
  ultimately show ?thesis by blast
qed

theorem accepted_inline_run_has_six_events_witness:
  "tokenizeParensMathText plainContext (atStart [92, 40, 92, 41]) =
     Ok (Some 41) \<lparr>rest = [], line = 1, log =
       [Enter mathText, Enter mathTextSequence, Consume (Some 92), Consume (Some 40),
        Exit mathTextSequence, Enter mathTextSequence, Consume (Some 92), Consume (Some 41),
        Exit mathTextSequence, Exit mathText]\<rparr> \<and>
   6 \<le> length (filter is_event (emitted (atStart [92, 40, 92, 41])
     \<lparr>rest = [], line = 1, log =
       [Enter mathText, Enter mathTextSequence, Consume (Some 92), Consume (Some 40),
        Exit mathTextSequence, Enter mathTextSequence, Consume (Some 92), Consume (Some 41),
        Exit mathTextSequence, Exit mathText]\<rparr>))"
proof -
  have h: "tokenizeParensMathText plainContext (atStart [92, 40, 92, 41]) =
     Ok (Some 41) \<lparr>rest = [], line = 1, log =
       [Enter mathText, Enter mathTextSequence, Consume (Some 92), Consume (Some 40),
        Exit mathTextSequence, Enter mathTextSequence, Consume (Some 92), Consume (Some 41),
        Exit mathTextSequence, Exit mathText]\<rparr>"
    by code_simp
  from accepted_inline_run_has_six_events [OF h] h show ?thesis by blast
qed

section \<open>The backslash that does not close\<close>

text \<open>
  C2 fails on the code.  On \<open>\(\ab\)\<close> the recognizer reaches \<open>closeParenthesis\<close> with
  \<open>a\<close>: it enters \<open>mathTextData\<close> while \<open>mathTextSequence\<close> is still open, consumes
  \<open>a\<close>, exits \<open>mathTextSequence\<close>, and hands the same \<open>a\<close> to \<open>data\<close>, which consumes
  it again.  The engine has then advanced past \<open>b\<close>, which no state ever sees.
\<close>

theorem degrade_consumes_twice:
  "tokenizeParensMathText plainContext (atStart [92, 40, 92, 97, 98, 92, 41]) =
     Ok (Some 41) \<lparr>rest = [], line = 1, log =
       [Enter mathText, Enter mathTextSequence, Consume (Some 92), Consume (Some 40),
        Exit mathTextSequence, Enter mathTextSequence, Consume (Some 92),
        Enter mathTextData, Consume (Some 97), Exit mathTextSequence, Consume (Some 97),
        Exit mathTextData, Enter mathTextSequence, Consume (Some 92), Consume (Some 41),
        Exit mathTextSequence, Exit mathText]\<rparr>"
  by code_simp

section \<open>Induction over the block state machine\<close>

lemma flow_induct [case_names beforeNonLazyContinuation contentStart beforeContentChunk contentChunk]:
  assumes N: "\<And>self c e found.
      (\<And>c' e' found'. tokenizeClosingFence self c e found = (Nok c' e', found') \<Longrightarrow>
         Q self (current e) e found')
      \<Longrightarrow> P self c e found"
    and S: "\<And>self c e found.
      \<lbrakk>\<And>c' e'. \<lbrakk>ctx_initialSize self \<noteq> 0;
          factorySpace linePrefix (Some (ctx_initialSize self + 1)) c e = (c', e')\<rbrakk> \<Longrightarrow>
          R self c' e' found;
       ctx_initialSize self = 0 \<Longrightarrow> R self c e found\<rbrakk>
      \<Longrightarrow> Q self c e found"
    and B: "\<And>self c e found.
      \<lbrakk>\<And>c' e'. \<lbrakk>markdownLineEnding c;
          attempt (tokenizeNonLazyContinuation self) c e = Ok c' e'\<rbrakk> \<Longrightarrow>
          P self c' e' found;
       \<not> flow_end c \<Longrightarrow> T self c (enter mathFlowValue e) found\<rbrakk>
      \<Longrightarrow> R self c e found"
    and C: "\<And>self c e found.
      \<lbrakk>flow_end c \<Longrightarrow> R self c (exit mathFlowValue e) found;
       \<not> flow_end c \<Longrightarrow> T self (current (consume c e)) (consume c e) found\<rbrakk>
      \<Longrightarrow> T self c e found"
  shows "P self c e found" and "Q self c e found" and "R self c e found" and "T self c e found"
proof (induction self c e found and self c e found and self c e found and self c e found
    rule: beforeNonLazyContinuation_contentStart_beforeContentChunk_contentChunk.induct)
  case (1 self c e found)
  show ?case
  proof (rule N)
    fix c' e' found'
    assume "tokenizeClosingFence self c e found = (Nok c' e', found')"
    then show "Q self (current e) e found'"
      by (intro 1 [of "Nok c' e'" found' c' e']) simp_all
  qed
next
  case (2 self c e found)
  show ?case
  proof (rule S)
    fix c' e'
    assume "ctx_initialSize self \<noteq> 0"
      "factorySpace linePrefix (Some (ctx_initialSize self + 1)) c e = (c', e')"
    then show "R self c' e' found"
      by (intro 2(1)) simp_all
  next
    assume "ctx_initialSize self = 0"
    then show "R self c e found"
      by (intro 2(2)) simp
  qed
next
  case (3 self c e found)
  show ?case
  proof (rule B)
    fix c' e'
    assume "markdownLineEnding c" "attempt (tokenizeNonLazyContinuation self) c e = Ok c' e'"
    then show "P self c' e' found"
      by (intro 3(1)) (simp_all add: codes_defs)
  next
    assume "\<not> flow_end c"
    then show "T self c (enter mathFlowValue e) found"
      by (intro 3(2)) (simp_all add: flow_end_def)
  qed
next
  case (4 self c e found)
  show ?case
  proof (rule C)
    assume "flow_end c"
    then show "R self c (exit mathFlowValue e) found"
      by (intro 4(1)) (simp add: flow_end_def)
  next
    assume "\<not> flow_end c"
    then show "T self (current (consume c e)) (consume c e) found"
      by (intro 4(2)) (simp_all add: flow_end_def)
  qed
qed

lemma after_ok_eof: "after c e found = (Ok codes_eof e', f) \<Longrightarrow> f"
  by (auto simp: after_def split: if_splits)

lemma flow_ok_eof:
  "\<forall>e' f. beforeNonLazyContinuation self c e found = (Ok codes_eof e', f) \<longrightarrow> f"
  "\<forall>e' f. contentStart self c e found = (Ok codes_eof e', f) \<longrightarrow> f"
  "\<forall>e' f. beforeContentChunk self c e found = (Ok codes_eof e', f) \<longrightarrow> f"
  "\<forall>e' f. contentChunk self c e found = (Ok codes_eof e', f) \<longrightarrow> f"
proof (induction self c e found rule: flow_induct)
  case (beforeNonLazyContinuation self c e found)
  then show ?case
    by (subst beforeNonLazyContinuation.simps)
       (auto split: prod.splits result.splits dest: after_ok_eof)
next
  case (contentStart self c e found)
  then show ?case
    by (subst contentStart.simps) (auto split: prod.splits)
next
  case (beforeContentChunk self c e found)
  then show ?case
    by (subst beforeContentChunk.simps)
       (auto simp: flow_end_def split: result.splits dest: after_ok_eof)
next
  case (contentChunk self c e found)
  then show ?case
    by (subst contentChunk.simps) (auto simp: flow_end_def Let_def)
qed

lemma beforeNonLazyContinuation_ok_eof:
  "beforeNonLazyContinuation self c e found = (Ok codes_eof e', f) \<Longrightarrow> f"
  using flow_ok_eof(1) by blast

lemma metaAfter_ok_eof:
  "\<not> ctx_interrupt self \<Longrightarrow> metaAfter self c e found = (Ok codes_eof e', f) \<Longrightarrow> f"
  by (auto simp: metaAfter_def Let_def split: result.splits
      dest: after_ok_eof beforeNonLazyContinuation_ok_eof)

lemma meta_ok_eof:
  "\<not> ctx_interrupt self \<Longrightarrow> meta self c e found = (Ok codes_eof e', f) \<Longrightarrow> f"
proof (induction self c e found rule: meta.induct)
  case (1 self c e found)
  show ?case
  proof (cases "c = codes_eof \<or> markdownLineEnding c")
    case True
    with "1.prems" show ?thesis
      by (subst (asm) meta.simps) (auto simp: Let_def dest: metaAfter_ok_eof)
  next
    case False
    with "1.prems" have ne: "c \<noteq> codes_rightSquareBracket"
      and r: "meta self (current (consume c e)) (consume c e) found = (Ok codes_eof e', f)"
      by (subst (asm) meta.simps; auto simp: Let_def split: if_splits)+
    from False ne "1.prems"(1) r show ?thesis
      by (intro "1.IH" [of "consume c e"]) auto
  qed
qed

lemma tokenizeMathBracketFlow_ok_eof:
  assumes "\<not> ctx_interrupt self" and "tokenizeMathBracketFlow self e = (Ok codes_eof e', f)"
  shows f
proof -
  from assms(2) obtain c1 e1 where "metaBefore self c1 e1 False = (Ok codes_eof e', f)"
    by (auto simp: tokenizeMathBracketFlow_def mathFlow_start_def openBracket_def Let_def
        split: if_splits prod.splits)
  with assms(1) show f
    by (auto simp: metaBefore_def Let_def split: if_splits
        dest: metaAfter_ok_eof meta_ok_eof)
qed

lemma inline_eof:
  "between codes_eof e = Nok codes_eof e"
  "data codes_eof e = Nok codes_eof (exit mathTextData e)"
  "closeParenthesis codes_eof e =
     Nok codes_eof (exit mathTextData
       (exit mathTextSequence (consume codes_eof (enter mathTextData e))))"
  "openParenthesis codes_eof e = Nok codes_eof e"
proof -
  show b: "between codes_eof e = Nok codes_eof e" for e
    by (subst between.simps) simp
  show d: "data codes_eof e = Nok codes_eof (exit mathTextData e)" for e
    by (subst data.simps) (simp add: b)
  show "closeParenthesis codes_eof e =
     Nok codes_eof (exit mathTextData
       (exit mathTextSequence (consume codes_eof (enter mathTextData e))))"
    by (subst closeParenthesis.simps) (simp add: d [unfolded codes_eof_def] codes_defs)
  show "openParenthesis codes_eof e = Nok codes_eof e"
    by (simp add: openParenthesis_def codes_defs)
qed

section \<open>The opening fence line\<close>

lemma current_Nil [simp]: "rest e = [] \<Longrightarrow> current e = None"
  by (simp add: current_def)

lemma current_Cons [simp]: "rest e = x # xs \<Longrightarrow> current e = Some x"
  by (simp add: current_def)

lemma current_consume: "current (consume c e) = (case rest e of [] \<Rightarrow> None | x # xs \<Rightarrow> (case xs of [] \<Rightarrow> None | y # _ \<Rightarrow> Some y))"
  by (simp add: current_def split: list.splits)

lemma prefix_unbounded:
  "\<exists>e'. prefix ty None sz (current e) e = (current e', e') \<and>
        rest e' = dropWhile is_space (rest e)"
proof (induction "rest e" arbitrary: e sz)
  case Nil
  then show ?case
    by (subst prefix.simps) (auto simp: current_def)
next
  case (Cons x xs)
  show ?case
  proof (cases "is_space x")
    case True
    have "xs = rest (consume (Some x) e)" using Cons(2) [symmetric] by simp
    from Cons(1) [OF this, of "Suc sz"] obtain e' where
      "prefix ty None (Suc sz) (current (consume (Some x) e)) (consume (Some x) e) = (current e', e')"
      "rest e' = dropWhile is_space xs"
      using Cons(2) [symmetric] by auto
    with True Cons(2) [symmetric] show ?thesis
      by (subst prefix.simps) (auto simp: is_space_def Let_def)
  next
    case False
    with Cons(2) [symmetric] show ?thesis
      by (subst prefix.simps) (auto simp: is_space_def)
  qed
qed

lemma factorySpace_unbounded:
  "\<exists>e'. factorySpace ty None (current e) e = (current e', e') \<and>
        rest e' = dropWhile is_space (rest e)"
proof (cases "markdownSpace (current e)")
  case True
  from prefix_unbounded [of ty 0 "enter ty e"] True show ?thesis
    by (auto simp: factorySpace_def)
next
  case False
  then have "dropWhile is_space (rest e) = rest e"
    by (cases "rest e") (auto simp: is_space_def)
  with False show ?thesis
    by (auto simp: factorySpace_def)
qed

lemma meta_rejects_bracket:
  "meta_text m \<Longrightarrow> rest e = m @ 93 # r \<Longrightarrow>
     \<exists>e'. meta self (current e) e found = (Nok codes_rightSquareBracket e', found) \<and>
          rest e' = 93 # r"
proof (induction m arbitrary: e)
  case Nil
  then show ?case
    by (subst meta.simps) (simp add: codes_defs)
next
  case (Cons x m)
  from Cons.prems have "meta_text m" and "rest (consume (Some x) e) = m @ 93 # r"
    by (simp_all add: meta_text_def)
  from Cons.IH [OF this] Cons.prems show ?case
    by (subst meta.simps) (auto simp: meta_text_def codes_defs Let_def)
qed

lemma meta_reaches_line_end:
  "meta_text m \<Longrightarrow> rest e = m @ r \<Longrightarrow> r = [] \<or> markdownLineEnding (Some (hd r)) \<Longrightarrow>
     \<exists>e'. rest e' = r \<and> meta self (current e) e found =
       metaAfter self (current e') (exit mathFlowFenceMeta (exit chunkString e')) found"
proof (induction m arbitrary: e)
  case Nil
  then have "current e = codes_eof \<or> markdownLineEnding (current e)"
    by (cases r) (auto simp: codes_defs)
  with Nil show ?case
    by (subst meta.simps) (auto simp: Let_def)
next
  case (Cons x m)
  from Cons.prems have "meta_text m" and "rest (consume (Some x) e) = m @ r"
    by (simp_all add: meta_text_def)
  from Cons.IH [OF this Cons.prems(3)] Cons.prems show ?case
    by (subst meta.simps) (auto simp: meta_text_def codes_defs Let_def)
qed

lemma dropWhile_space_line:
  "r = [] \<or> \<not> is_space (hd r) \<Longrightarrow>
     dropWhile is_space (m @ r) = dropWhile is_space m @ r"
  by (cases r) (auto simp: dropWhile_append)

lemma meta_text_dropWhile: "meta_text m \<Longrightarrow> meta_text (dropWhile P m)"
  by (auto simp: meta_text_def dest: set_dropWhileD)

lemma opening_sequence:
  assumes "rest e = 92 # 91 # xs"
  shows "\<exists>e'. rest e' = dropWhile is_space xs \<and>
     tokenizeMathBracketFlow self e = metaBefore self (current e') e' False"
proof -
  let ?e = "exit mathFlowFenceSequence (consume codes_leftSquareBracket
     (consume codes_backslash (enter mathFlowFenceSequence (enter mathFlowFence (enter mathFlow e)))))"
  have r: "rest ?e = xs" using assms by simp
  from factorySpace_unbounded [of whitespace ?e] obtain e' where
    "factorySpace whitespace None (current ?e) ?e = (current e', e')"
    "rest e' = dropWhile is_space xs"
    using r by auto
  with assms show ?thesis
    by (auto simp: tokenizeMathBracketFlow_def mathFlow_start_def openBracket_def Let_def
        codes_defs)
qed

text \<open>
  C8.  When the text after \<open>\[\<close> on the opening line contains a right square bracket
  (with no line ending before it), the recognizer rejects the whole construct: it reaches
  \<open>nok\<close> at that bracket, whatever the context and whatever follows.
\<close>

theorem bracket_in_metadata_rejects:
  assumes "meta_text pre" and "rest e = 92 # 91 # pre @ 93 # r"
  shows "\<exists>e'. tokenizeMathBracketFlow self e = (Nok codes_rightSquareBracket e', False) \<and>
     rest e' = 93 # r"
proof -
  let ?m = "dropWhile is_space pre"
  have sp: "\<not> is_space 93" by (simp add: is_space_def)
  from opening_sequence [OF assms(2)] obtain e1 where
    e1: "rest e1 = dropWhile is_space (pre @ 93 # r)"
      "tokenizeMathBracketFlow self e = metaBefore self (current e1) e1 False"
    by blast
  from sp have "dropWhile is_space (pre @ 93 # r) = ?m @ 93 # r"
    by (intro dropWhile_space_line) simp
  with e1 have r1: "rest e1 = ?m @ 93 # r" by simp
  have mt: "meta_text ?m" using assms(1) by (rule meta_text_dropWhile)
  have "current e1 \<noteq> codes_eof \<and> \<not> markdownLineEnding (current e1)"
    using r1 mt by (cases ?m) (auto simp: meta_text_def codes_defs)
  then have "metaBefore self (current e1) e1 False =
      meta self (current (enter chunkString (enter mathFlowFenceMeta e1)))
        (enter chunkString (enter mathFlowFenceMeta e1)) False"
    by (simp add: metaBefore_def Let_def)
  moreover from meta_rejects_bracket [OF mt, of "enter chunkString (enter mathFlowFenceMeta e1)" r]
  obtain e' where
    "meta self (current (enter chunkString (enter mathFlowFenceMeta e1)))
        (enter chunkString (enter mathFlowFenceMeta e1)) False =
       (Nok codes_rightSquareBracket e', False)" "rest e' = 93 # r"
    using r1 by auto
  ultimately show ?thesis using e1(2) by auto
qed

theorem bracket_in_metadata_rejects_witness:
  "meta_text [104, 97, 115] \<and>
   rest (atStart [92, 91, 104, 97, 115, 93, 98]) = 92 # 91 # [104, 97, 115] @ 93 # [98] \<and>
   (\<exists>e'. tokenizeMathBracketFlow plainContext (atStart [92, 91, 104, 97, 115, 93, 98]) =
       (Nok codes_rightSquareBracket e', False) \<and> rest e' = 93 # [98])"
proof -
  have h1: "meta_text [104, 97, 115]"
    by (simp add: meta_text_def codes_defs)
  have h2: "rest (atStart [92, 91, 104, 97, 115, 93, 98]) = 92 # 91 # [104, 97, 115] @ 93 # [98]"
    by (simp add: atStart_def)
  from bracket_in_metadata_rejects [OF h1 h2, of plainContext] h1 h2 show ?thesis
    by blast
qed

text \<open>
  C9.  When the recognizer runs while interrupting, it reaches \<open>ok\<close> at the line ending
  or end of input that ends the opening fence line, and leaves everything after that
  line unread: no closing fence is looked for.
\<close>

theorem interrupting_block_accepts_after_first_line:
  assumes "ctx_interrupt self" and "meta_text m" and "rest e = 92 # 91 # m @ r"
    and "r = [] \<or> markdownLineEnding (Some (hd r))"
  shows "\<exists>e'. tokenizeMathBracketFlow self e = (Ok (current e') e', False) \<and> rest e' = r"
proof -
  let ?m = "dropWhile is_space m"
  from opening_sequence [OF assms(3)] obtain e1 where
    e1: "rest e1 = dropWhile is_space (m @ r)"
      "tokenizeMathBracketFlow self e = metaBefore self (current e1) e1 False"
    by blast
  from assms(4) have "r = [] \<or> \<not> is_space (hd r)"
    by (auto simp: is_space_def)
  then have "dropWhile is_space (m @ r) = ?m @ r"
    by (rule dropWhile_space_line)
  with e1 have r1: "rest e1 = ?m @ r" by simp
  have mt: "meta_text ?m" using assms(2) by (rule meta_text_dropWhile)
  show ?thesis
  proof (cases "?m = []")
    case True
    with r1 assms(4) have "current e1 = codes_eof \<or> markdownLineEnding (current e1)"
      by (cases r) (auto simp: codes_defs)
    with assms(1) have "metaBefore self (current e1) e1 False =
        (Ok (current (exit mathFlowFence e1)) (exit mathFlowFence e1), False)"
      by (simp add: metaBefore_def metaAfter_def Let_def)
    with e1(2) r1 True show ?thesis
      by (intro exI [of _ "exit mathFlowFence e1"]) simp
  next
    case False
    with r1 mt have "current e1 \<noteq> codes_eof \<and> \<not> markdownLineEnding (current e1)"
      by (cases ?m) (auto simp: meta_text_def codes_defs)
    then have "metaBefore self (current e1) e1 False =
        meta self (current (enter chunkString (enter mathFlowFenceMeta e1)))
          (enter chunkString (enter mathFlowFenceMeta e1)) False"
      by (simp add: metaBefore_def Let_def)
    moreover from meta_reaches_line_end
      [OF mt _ assms(4), of "enter chunkString (enter mathFlowFenceMeta e1)" self False]
    obtain e2 where "rest e2 = r"
      "meta self (current (enter chunkString (enter mathFlowFenceMeta e1)))
          (enter chunkString (enter mathFlowFenceMeta e1)) False =
       metaAfter self (current e2) (exit mathFlowFenceMeta (exit chunkString e2)) False"
      using r1 by auto
    ultimately show ?thesis
      using e1(2) assms(1)
      by (intro exI [of _ "exit mathFlowFence (exit mathFlowFenceMeta (exit chunkString e2))"])
         (simp add: metaAfter_def Let_def)
  qed
qed

theorem interrupting_block_accepts_after_first_line_witness:
  "ctx_interrupt (plainContext\<lparr>ctx_interrupt := True\<rparr>) \<and>
   meta_text [97] \<and>
   rest (atStart [92, 91, 97, - 4, 120]) = 92 # 91 # [97] @ [- 4, 120] \<and>
   ([- 4, 120] = [] \<or> markdownLineEnding (Some (hd [- 4, 120 :: int]))) \<and>
   (\<exists>e'. tokenizeMathBracketFlow (plainContext\<lparr>ctx_interrupt := True\<rparr>)
           (atStart [92, 91, 97, - 4, 120]) = (Ok (current e') e', False) \<and>
         rest e' = [- 4, 120])"
proof -
  have h1: "ctx_interrupt (plainContext\<lparr>ctx_interrupt := True\<rparr>)"
    by simp
  have h2: "meta_text [97]"
    by (simp add: meta_text_def codes_defs)
  have h3: "rest (atStart [92, 91, 97, - 4, 120]) = 92 # 91 # [97] @ [- 4, 120]"
    by (simp add: atStart_def)
  have h4: "[- 4, 120] = [] \<or> markdownLineEnding (Some (hd [- 4, 120 :: int]))"
    by simp
  from interrupting_block_accepts_after_first_line [OF h1 h2 h3 h4] h1 h2 h3 h4
  show ?thesis by blast
qed

section \<open>Nesting of the events of an accepted run\<close>

lemma degrades_from_mono:
  assumes "degrades_from False as"
  shows "degrades_from p as"
proof (cases as)
  case Nil
  with assms show ?thesis by simp
next
  case (Cons a as')
  with assms show ?thesis by (cases a) simp_all
qed

lemma nest_append:
  "nest S (xs @ ys) = (case nest S xs of None \<Rightarrow> None | Some S' \<Rightarrow> nest S' ys)"
  by (induction S xs rule: nest.induct) (auto split: list.splits)

lemma closes_enter: "closes (enter k e) e' False (k # S) \<Longrightarrow> closes e e' False S"
proof -
  assume "closes (enter k e) e' False (k # S)"
  then obtain tr where "log e' = log e @ (Enter k # tr)"
    "\<not> degrades_from False tr \<longrightarrow> nest (k # S) tr = Some []"
    unfolding closes_def by auto
  then show ?thesis
    unfolding closes_def by (intro exI [of _ "Enter k # tr"]) simp
qed

lemma closes_exit: "closes (exit k e) e' False S \<Longrightarrow> closes e e' p (k # S)"
proof -
  assume "closes (exit k e) e' False S"
  then obtain tr where "log e' = log e @ (Exit k # tr)"
    "\<not> degrades_from False tr \<longrightarrow> nest S tr = Some []"
    unfolding closes_def by auto
  then show ?thesis
    unfolding closes_def by (intro exI [of _ "Exit k # tr"]) simp
qed

lemma closes_consume: "closes (consume c e) e' True S \<Longrightarrow> closes e e' p S"
proof -
  assume "closes (consume c e) e' True S"
  then obtain tr where "log e' = log e @ (Consume c # tr)"
    "\<not> degrades_from True tr \<longrightarrow> nest S tr = Some []"
    unfolding closes_def by auto
  then show ?thesis
    unfolding closes_def by (intro exI [of _ "Consume c # tr"]) simp
qed

lemmas closes_back = closes_enter closes_exit closes_consume

lemma closes_weaken: "closes e e' False S \<Longrightarrow> closes e e' p S"
  unfolding closes_def using degrades_from_mono by blast

lemma closes_degrade:
  "closes (enter mathTextData e) e' False S' \<Longrightarrow> closes e e' True S"
proof -
  assume "closes (enter mathTextData e) e' False S'"
  then obtain tr where "log e' = log e @ (Enter mathTextData # tr)"
    unfolding closes_def by auto
  then show ?thesis
    unfolding closes_def by (intro exI [of _ "Enter mathTextData # tr"]) simp
qed

lemma inline_closes:
  "\<forall>c' e'. between c e = Ok c' e' \<longrightarrow> closes e e' False [mathText]"
  "\<forall>c' e'. closeParenthesis c e = Ok c' e' \<longrightarrow> closes e e' True [mathTextSequence, mathText]"
  "\<forall>c' e'. data c e = Ok c' e' \<longrightarrow> closes e e' False [mathTextData, mathText]"
proof (induction c e rule: inline_induct)
  case (between c e)
  show ?case
  proof (intro allI impI)
    fix c' e' assume ok: "between c e = Ok c' e'"
    consider (bs) "c = codes_backslash" | (sp) "c \<noteq> codes_backslash" "c = codes_space"
      | (le) "c \<noteq> codes_backslash" "c \<noteq> codes_space" "markdownLineEnding c"
      | (dt) "\<not> text_end c" | (eof) "c = codes_eof"
      by (auto simp: text_end_def)
    then show "closes e e' False [mathText]"
    proof cases
      case bs
      with ok have "closeParenthesis (current (consume c (enter mathTextSequence e)))
          (consume c (enter mathTextSequence e)) = Ok c' e'"
        by (subst (asm) between.simps) (simp add: Let_def codes_defs)
      with between(1) [OF bs] have h: "closes (consume c (enter mathTextSequence e)) e' True
          [mathTextSequence, mathText]" by blast
      show ?thesis by (rule closes_enter, rule closes_consume, rule h)
    next
      case sp
      with ok have "between (current (exit space (consume c (enter space e))))
         (exit space (consume c (enter space e))) = Ok c' e'"
        by (subst (asm) between.simps) (simp add: Let_def codes_defs)
      with between(2) [OF sp] have h: "closes (exit space (consume c (enter space e))) e' False [mathText]"
        by blast
      show ?thesis
        by (rule closes_enter, rule closes_consume, rule closes_exit, rule h)
    next
      case le
      with ok have "between (current (exit lineEnding (consume c (enter lineEnding e))))
         (exit lineEnding (consume c (enter lineEnding e))) = Ok c' e'"
        by (subst (asm) between.simps) (simp add: Let_def codes_defs)
      with between(3) [OF le] have h: "closes (exit lineEnding (consume c (enter lineEnding e))) e' False
          [mathText]"
        by blast
      show ?thesis
        by (rule closes_enter, rule closes_consume, rule closes_exit, rule h)
    next
      case dt
      with ok have "data c (enter mathTextData e) = Ok c' e'"
        by (subst (asm) between.simps) (simp add: Let_def text_end_def)
      with between(4) [OF dt] have h: "closes (enter mathTextData e) e' False [mathTextData, mathText]"
        by blast
      show ?thesis by (rule closes_enter, rule h)
    next
      case eof
      with ok show ?thesis
        by (subst (asm) between.simps) simp
    qed
  qed
next
  case (closeParenthesis c e)
  show ?case
  proof (intro allI impI)
    fix c' e' assume ok: "closeParenthesis c e = Ok c' e'"
    show "closes e e' True [mathTextSequence, mathText]"
    proof (cases "c = codes_rightParenthesis")
      case True
      with ok have "e' = exit mathText (exit mathTextSequence (consume c e))"
        by (subst (asm) closeParenthesis.simps) (simp add: Let_def)
      then show ?thesis by (simp add: closes_def)
    next
      case False
      with ok have "data c (exit mathTextSequence (consume c (enter mathTextData e))) = Ok c' e'"
        by (subst (asm) closeParenthesis.simps) (simp add: Let_def)
      with closeParenthesis [OF False]
      have h: "closes (exit mathTextSequence (consume c (enter mathTextData e))) e' False
          [mathTextData, mathText]" by blast
      have "closes (enter mathTextData e) e' False [mathTextSequence, mathTextData, mathText]"
        by (rule closes_consume, rule closes_exit, rule h)
      then show ?thesis by (rule closes_degrade)
    qed
  qed
next
  case (data c e)
  show ?case
  proof (intro allI impI)
    fix c' e' assume ok: "data c e = Ok c' e'"
    show "closes e e' False [mathTextData, mathText]"
    proof (cases "text_end c")
      case True
      with ok have "between c (exit mathTextData e) = Ok c' e'"
        by (subst (asm) data.simps) (simp add: text_end_def)
      with data(1) [OF True] have h: "closes (exit mathTextData e) e' False [mathText]"
        by blast
      show ?thesis by (rule closes_exit, rule h)
    next
      case False
      with ok have "data (current (consume c e)) (consume c e) = Ok c' e'"
        by (subst (asm) data.simps) (simp add: text_end_def Let_def)
      with data(2) [OF False] have h: "closes (consume c e) e' False [mathTextData, mathText]"
        by blast
      show ?thesis by (rule closes_consume, rule closes_weaken, rule h)
    qed
  qed
qed

lemma tokenizeParensMathText_closes:
  assumes "tokenizeParensMathText self e = Ok c e'"
  shows "closes e e' False []"
proof -
  let ?e = "exit mathTextSequence (consume codes_leftParenthesis
      (consume codes_backslash (enter mathTextSequence (enter mathText e))))"
  from assms have "between (current ?e) ?e = Ok c e'"
    by (auto simp: tokenizeParensMathText_def mathText_start_def openParenthesis_def Let_def
        split: if_splits sum.splits bool.splits)
  with inline_closes(1) have h: "closes ?e e' False [mathText]"
    by blast
  show ?thesis
    by (rule closes_enter, rule closes_enter, rule closes_consume, rule closes_consume,
        rule closes_exit, rule h)
qed

lemma closes_emitted:
  "closes e e' False [] \<Longrightarrow> \<not> degrades (emitted e e') \<Longrightarrow> well_nested (emitted e e')"
  by (auto simp: closes_def emitted_def well_nested_def degrades_def)

lemma adds_refl: "adds e e S S"
  by (simp add: adds_def)

lemma adds_trans: "adds e e1 S S1 \<Longrightarrow> adds e1 e2 S1 S2 \<Longrightarrow> adds e e2 S S2"
proof -
  assume "adds e e1 S S1" "adds e1 e2 S1 S2"
  then obtain tr1 tr2 where "log e1 = log e @ tr1" "nest S tr1 = Some S1"
    "log e2 = log e1 @ tr2" "nest S1 tr2 = Some S2"
    unfolding adds_def by blast
  then show ?thesis
    unfolding adds_def by (intro exI [of _ "tr1 @ tr2"]) (simp add: nest_append)
qed

lemma adds_enter: "adds (enter k e) e' (k # S) S' \<Longrightarrow> adds e e' S S'"
proof -
  assume "adds (enter k e) e' (k # S) S'"
  then obtain tr where "log e' = log e @ (Enter k # tr)" "nest (k # S) tr = Some S'"
    unfolding adds_def by auto
  then show ?thesis
    unfolding adds_def by (intro exI [of _ "Enter k # tr"]) simp
qed

lemma adds_exit: "adds (exit k e) e' S S' \<Longrightarrow> adds e e' (k # S) S'"
proof -
  assume "adds (exit k e) e' S S'"
  then obtain tr where "log e' = log e @ (Exit k # tr)" "nest S tr = Some S'"
    unfolding adds_def by auto
  then show ?thesis
    unfolding adds_def by (intro exI [of _ "Exit k # tr"]) simp
qed

lemma adds_consume: "adds (consume c e) e' S S' \<Longrightarrow> adds e e' S S'"
proof -
  assume "adds (consume c e) e' S S'"
  then obtain tr where "log e' = log e @ (Consume c # tr)" "nest S tr = Some S'"
    unfolding adds_def by auto
  then show ?thesis
    unfolding adds_def by (intro exI [of _ "Consume c # tr"]) simp
qed

lemma prefix_adds: "prefix ty limit sz c e = (c', e') \<Longrightarrow> adds e e' (ty # S) S"
proof (induction ty limit sz c e rule: prefix.induct)
  case (1 ty limit sz c e)
  show ?case
  proof (cases "markdownSpace c \<and> (case limit of None \<Rightarrow> True | Some l \<Rightarrow> sz < l)")
    case True
    have "prefix ty limit (Suc sz) (current (consume c e)) (consume c e) = (c', e')"
      using "1.prems" True by (subst (asm) prefix.simps) (simp add: Let_def)
    then have "adds (consume c e) e' (ty # S) S"
      using "1.IH" True by simp
    then show ?thesis by (rule adds_consume)
  next
    case False
    with "1.prems" have "e' = exit ty e"
      by (subst (asm) prefix.simps) auto
    then show ?thesis
      by (simp only:) (rule adds_exit, rule adds_refl)
  qed
qed

lemma factorySpace_adds: "factorySpace ty mx c e = (c', e') \<Longrightarrow> adds e e' S S"
proof (cases "markdownSpace c")
  case True
  assume "factorySpace ty mx c e = (c', e')"
  with True obtain limit where "prefix ty limit 0 c (enter ty e) = (c', e')"
    by (simp add: factorySpace_def Let_def)
  then have "adds (enter ty e) e' (ty # S) S" by (rule prefix_adds)
  then show ?thesis by (rule adds_enter)
next
  case False
  assume "factorySpace ty mx c e = (c', e')"
  with False show ?thesis by (simp add: factorySpace_def Let_def adds_refl)
qed

lemma nonLazy_adds:
  assumes "attempt (tokenizeNonLazyContinuation self) c e = Ok c' e'"
  shows "adds e e' S S"
proof (cases "c = None")
  case True
  with assms have "e' = e"
    by (simp add: attempt_def tokenizeNonLazyContinuation_def)
  then show ?thesis by (simp add: adds_refl)
next
  case False
  with assms have "e' = exit lineEnding (consume c (enter lineEnding e))"
    by (auto simp: attempt_def tokenizeNonLazyContinuation_def lineStart_def Let_def
        split: if_splits)
  then show ?thesis
    by (simp only:) (rule adds_enter, rule adds_consume, rule adds_exit, rule adds_refl)
qed

lemma closingFence_adds:
  assumes "tokenizeClosingFence self c e found = (Ok c' e', f)"
  shows "adds e e' S S"
proof -
  from assms obtain mx c1 e1 where
    fs: "factorySpace linePrefix mx c e = (c1, e1)" and
    b: "beforeSequenceClose c1 e1 found = (Ok c' e', f)"
    by (auto simp: tokenizeClosingFence_def split: option.splits prod.splits)
  let ?e2 = "consume c1 (enter mathFlowFenceSequence (enter mathFlowFence e1))"
  from b have s1: "sequenceClose True (current ?e2) ?e2 found = (Ok c' e', f)"
    by (auto simp: beforeSequenceClose_def Let_def split: if_splits)
  let ?e3 = "exit mathFlowFenceSequence (consume (current ?e2) ?e2)"
  from s1 obtain c4 e4 where
    ws: "factorySpace whitespace None (current ?e3) ?e3 = (c4, e4)" and
    a: "afterSequenceClose c4 e4 = Ok c' e'"
    by (auto simp: Let_def split: if_splits prod.splits)
  from a have e': "e' = exit mathFlowFence e4"
    by (auto simp: afterSequenceClose_def split: if_splits)
  have "adds e e1 S S" using fs by (rule factorySpace_adds)
  moreover have h: "adds ?e3 e4 (mathFlowFence # S) (mathFlowFence # S)"
    using ws by (rule factorySpace_adds)
  have "adds e1 e4 S (mathFlowFence # S)"
    by (rule adds_enter, rule adds_enter, rule adds_consume, rule adds_consume,
        rule adds_exit, rule h)
  moreover have "adds e4 e' (mathFlowFence # S) S"
    unfolding e' by (rule adds_exit) (rule adds_refl)
  ultimately show ?thesis by (blast intro: adds_trans)
qed

lemma after_adds: "after c e found = (Ok c' e', f) \<Longrightarrow> adds e e' [mathFlow] []"
proof -
  assume "after c e found = (Ok c' e', f)"
  then have "e' = exit mathFlow e"
    by (auto simp: after_def split: if_splits)
  then show ?thesis
    by (simp only:) (rule adds_exit, rule adds_refl)
qed

lemma flow_adds:
  "\<forall>c' e' f. beforeNonLazyContinuation self c e found = (Ok c' e', f) \<longrightarrow>
     adds e e' [mathFlow] []"
  "\<forall>c' e' f. contentStart self c e found = (Ok c' e', f) \<longrightarrow> adds e e' [mathFlow] []"
  "\<forall>c' e' f. beforeContentChunk self c e found = (Ok c' e', f) \<longrightarrow> adds e e' [mathFlow] []"
  "\<forall>c' e' f. contentChunk self c e found = (Ok c' e', f) \<longrightarrow>
     adds e e' [mathFlowValue, mathFlow] []"
proof (induction self c e found rule: flow_induct)
  case (beforeNonLazyContinuation self c e found)
  show ?case
  proof (intro allI impI)
    fix c' e' f
    assume ok: "beforeNonLazyContinuation self c e found = (Ok c' e', f)"
    obtain r f1 where t: "tokenizeClosingFence self c e found = (r, f1)"
      by (cases "tokenizeClosingFence self c e found")
    show "adds e e' [mathFlow] []"
    proof (cases r)
      case (Ok c1 e1)
      with ok t have "after (current e1) e1 f1 = (Ok c' e', f)"
        by (subst (asm) beforeNonLazyContinuation.simps) simp
      then have "adds e1 e' [mathFlow] []" by (rule after_adds)
      moreover from t Ok have "adds e e1 [mathFlow] [mathFlow]"
        by (intro closingFence_adds) simp
      ultimately show ?thesis by (blast intro: adds_trans)
    next
      case (Nok c1 e1)
      with ok t have "contentStart self (current e) e f1 = (Ok c' e', f)"
        by (subst (asm) beforeNonLazyContinuation.simps) simp
      with beforeNonLazyContinuation [of c1 e1 f1] t Nok show ?thesis
        by blast
    next
      case (Threw err)
      with ok t show ?thesis
        by (subst (asm) beforeNonLazyContinuation.simps) simp
    qed
  qed
next
  case (contentStart self c e found)
  show ?case
  proof (intro allI impI)
    fix c' e' f
    assume ok: "contentStart self c e found = (Ok c' e', f)"
    show "adds e e' [mathFlow] []"
    proof (cases "ctx_initialSize self = 0")
      case True
      with ok have "beforeContentChunk self c e found = (Ok c' e', f)"
        by (subst (asm) contentStart.simps) simp
      with contentStart(2) [OF True] show ?thesis by blast
    next
      case False
      obtain c1 e1 where
        fs: "factorySpace linePrefix (Some (ctx_initialSize self + 1)) c e = (c1, e1)"
        by (cases "factorySpace linePrefix (Some (ctx_initialSize self + 1)) c e")
      with ok False have "beforeContentChunk self c1 e1 found = (Ok c' e', f)"
        by (subst (asm) contentStart.simps) simp
      with contentStart(1) [OF False fs] have "adds e1 e' [mathFlow] []" by blast
      moreover from fs have "adds e e1 [mathFlow] [mathFlow]" by (rule factorySpace_adds)
      ultimately show ?thesis by (blast intro: adds_trans)
    qed
  qed
next
  case (beforeContentChunk self c e found)
  show ?case
  proof (intro allI impI)
    fix c' e' f
    assume ok: "beforeContentChunk self c e found = (Ok c' e', f)"
    consider (eof) "c = codes_eof" | (le) "markdownLineEnding c" | (other) "\<not> flow_end c"
      by (auto simp: flow_end_def)
    then show "adds e e' [mathFlow] []"
    proof cases
      case eof
      with ok have "after c e found = (Ok c' e', f)"
        by (subst (asm) beforeContentChunk.simps) simp
      then show ?thesis by (rule after_adds)
    next
      case le
      then have ne: "c \<noteq> codes_eof" by (auto simp: codes_defs)
      show ?thesis
      proof (cases "attempt (tokenizeNonLazyContinuation self) c e")
        case (Ok c1 e1)
        with ok le ne have "beforeNonLazyContinuation self c1 e1 found = (Ok c' e', f)"
          by (subst (asm) beforeContentChunk.simps) simp
        with beforeContentChunk(1) [OF le Ok] have "adds e1 e' [mathFlow] []" by blast
        moreover from Ok have "adds e e1 [mathFlow] [mathFlow]" by (rule nonLazy_adds)
        ultimately show ?thesis by (blast intro: adds_trans)
      next
        case (Nok c1 e1)
        then have "e1 = e" by (auto simp: attempt_def split: result.splits)
        moreover from Nok ok le ne have "after c1 e1 found = (Ok c' e', f)"
          by (subst (asm) beforeContentChunk.simps) simp
        ultimately show ?thesis by (auto dest: after_adds)
      next
        case (Threw err)
        with ok le ne show ?thesis
          by (subst (asm) beforeContentChunk.simps) simp
      qed
    next
      case other
      with ok have "contentChunk self c (enter mathFlowValue e) found = (Ok c' e', f)"
        by (subst (asm) beforeContentChunk.simps) (simp add: flow_end_def)
      with beforeContentChunk(2) [OF other]
      have h: "adds (enter mathFlowValue e) e' [mathFlowValue, mathFlow] []" by blast
      show ?thesis by (rule adds_enter, rule h)
    qed
  qed
next
  case (contentChunk self c e found)
  show ?case
  proof (intro allI impI)
    fix c' e' f
    assume ok: "contentChunk self c e found = (Ok c' e', f)"
    show "adds e e' [mathFlowValue, mathFlow] []"
    proof (cases "flow_end c")
      case True
      with ok have "beforeContentChunk self c (exit mathFlowValue e) found = (Ok c' e', f)"
        by (subst (asm) contentChunk.simps) (simp add: flow_end_def)
      with contentChunk(1) [OF True] have h: "adds (exit mathFlowValue e) e' [mathFlow] []"
        by blast
      show ?thesis by (rule adds_exit, rule h)
    next
      case False
      with ok have "contentChunk self (current (consume c e)) (consume c e) found = (Ok c' e', f)"
        by (subst (asm) contentChunk.simps) (simp add: flow_end_def Let_def)
      with contentChunk(2) [OF False]
      have h: "adds (consume c e) e' [mathFlowValue, mathFlow] []" by blast
      show ?thesis by (rule adds_consume, rule h)
    qed
  qed
qed

lemma metaAfter_adds:
  assumes "metaAfter self c e found = (Ok c' e', f)"
  shows "adds e e' [mathFlowFence, mathFlow] (left_open self)"
proof (cases "ctx_interrupt self")
  case True
  with assms have "e' = exit mathFlowFence e"
    by (simp add: metaAfter_def Let_def)
  with True show ?thesis
    by (simp only: left_open_def if_True) (rule adds_exit, rule adds_refl)
next
  case False
  have "adds (exit mathFlowFence e) e' [mathFlow] []"
  proof (cases "attempt (tokenizeNonLazyContinuation self) c (exit mathFlowFence e)")
    case (Ok c1 e1)
    with assms False have "beforeNonLazyContinuation self c1 e1 found = (Ok c' e', f)"
      by (simp add: metaAfter_def Let_def)
    with flow_adds(1) have "adds e1 e' [mathFlow] []" by blast
    moreover from Ok have "adds (exit mathFlowFence e) e1 [mathFlow] [mathFlow]"
      by (rule nonLazy_adds)
    ultimately show ?thesis by (blast intro: adds_trans)
  next
    case (Nok c1 e1)
    then have "e1 = exit mathFlowFence e" by (auto simp: attempt_def split: result.splits)
    moreover from Nok assms False have "after c1 e1 found = (Ok c' e', f)"
      by (simp add: metaAfter_def Let_def)
    ultimately show ?thesis by (auto dest: after_adds)
  next
    case (Threw err)
    with assms False show ?thesis by (simp add: metaAfter_def Let_def)
  qed
  then have "adds e e' [mathFlowFence, mathFlow] []" by (rule adds_exit)
  with False show ?thesis by (simp add: left_open_def)
qed

lemma meta_adds:
  "meta self c e found = (Ok c' e', f) \<Longrightarrow>
     adds e e' [chunkString, mathFlowFenceMeta, mathFlowFence, mathFlow] (left_open self)"
proof (induction self c e found rule: meta.induct)
  case (1 self c e found)
  show ?case
  proof (cases "c = codes_eof \<or> markdownLineEnding c")
    case True
    with "1.prems" have "metaAfter self c (exit mathFlowFenceMeta (exit chunkString e)) found =
        (Ok c' e', f)"
      by (subst (asm) meta.simps) (auto simp: Let_def)
    then have h: "adds (exit mathFlowFenceMeta (exit chunkString e)) e'
        [mathFlowFence, mathFlow] (left_open self)"
      by (rule metaAfter_adds)
    show ?thesis by (rule adds_exit, rule adds_exit, rule h)
  next
    case False
    with "1.prems" have ne: "c \<noteq> codes_rightSquareBracket"
      and r: "meta self (current (consume c e)) (consume c e) found = (Ok c' e', f)"
      by (subst (asm) meta.simps; auto simp: Let_def split: if_splits)+
    from False ne r have h: "adds (consume c e) e'
        [chunkString, mathFlowFenceMeta, mathFlowFence, mathFlow] (left_open self)"
      by (intro "1.IH" [of "consume c e"]) auto
    show ?thesis by (rule adds_consume, rule h)
  qed
qed

lemma tokenizeMathBracketFlow_adds:
  assumes "tokenizeMathBracketFlow self e = (Ok c e', f)"
  shows "adds e e' [] (left_open self)"
proof -
  let ?e = "exit mathFlowFenceSequence (consume codes_leftSquareBracket
     (consume codes_backslash (enter mathFlowFenceSequence (enter mathFlowFence (enter mathFlow e)))))"
  from assms obtain c1 e1 where
    fs: "factorySpace whitespace None (current ?e) ?e = (c1, e1)" and
    mb: "metaBefore self c1 e1 False = (Ok c e', f)"
    by (auto simp: tokenizeMathBracketFlow_def mathFlow_start_def openBracket_def Let_def
        split: if_splits prod.splits)
  have "adds e1 e' [mathFlowFence, mathFlow] (left_open self)"
  proof (cases "c1 = codes_eof \<or> markdownLineEnding c1")
    case True
    with mb show ?thesis by (auto simp: metaBefore_def dest: metaAfter_adds)
  next
    case False
    with mb have "meta self c1 (enter chunkString (enter mathFlowFenceMeta e1)) False =
        (Ok c e', f)"
      by (auto simp: metaBefore_def Let_def)
    then have h: "adds (enter chunkString (enter mathFlowFenceMeta e1)) e'
        [chunkString, mathFlowFenceMeta, mathFlowFence, mathFlow] (left_open self)"
      by (rule meta_adds)
    show ?thesis by (rule adds_enter, rule adds_enter, rule h)
  qed
  moreover from fs have "adds ?e e1 [mathFlowFence, mathFlow] [mathFlowFence, mathFlow]"
    by (rule factorySpace_adds)
  ultimately have h: "adds ?e e' [mathFlowFence, mathFlow] (left_open self)"
    by (blast intro: adds_trans)
  show ?thesis
    by (rule adds_enter, rule adds_enter, rule adds_enter, rule adds_consume, rule adds_consume,
        rule adds_exit, rule h)
qed

lemma adds_emitted: "adds e e' [] S \<Longrightarrow> nest [] (emitted e e') = Some S"
  by (auto simp: adds_def emitted_def)

text \<open>
  C1 (as the code has it).  A run of the inline recognizer that reaches \<open>ok\<close> without
  taking the degrade path, and a run of the block recognizer that reaches \<open>ok\<close> while
  not interrupting, emit a well-nested event stream.  A run of the block recognizer that
  reaches \<open>ok\<close> while interrupting closes every span but the outermost: \<open>mathFlow\<close> is
  left open.
\<close>

theorem accepted_runs_well_nested:
  "(tokenizeParensMathText self e = Ok c e' \<and> \<not> degrades (emitted e e')
      \<longrightarrow> well_nested (emitted e e')) \<and>
   (tokenizeMathBracketFlow self e = (Ok c e'', f) \<and> \<not> ctx_interrupt self
      \<longrightarrow> well_nested (emitted e e'')) \<and>
   (tokenizeMathBracketFlow self e = (Ok c e'', f) \<and> ctx_interrupt self
      \<longrightarrow> nest [] (emitted e e'') = Some [mathFlow])"
  using closes_emitted [OF tokenizeParensMathText_closes, of self e c e']
    adds_emitted [OF tokenizeMathBracketFlow_adds, of self e c e'' f]
  by (auto simp: left_open_def well_nested_def)

theorem accepted_runs_well_nested_witness:
  "tokenizeParensMathText plainContext (atStart [92, 40, 97, 92, 41]) =
     Ok (Some 41) \<lparr>rest = [], line = 1, log =
       [Enter mathText, Enter mathTextSequence, Consume (Some 92), Consume (Some 40),
        Exit mathTextSequence, Enter mathTextData, Consume (Some 97), Exit mathTextData,
        Enter mathTextSequence, Consume (Some 92), Consume (Some 41),
        Exit mathTextSequence, Exit mathText]\<rparr> \<and>
   \<not> degrades (emitted (atStart [92, 40, 97, 92, 41]) \<lparr>rest = [], line = 1, log =
       [Enter mathText, Enter mathTextSequence, Consume (Some 92), Consume (Some 40),
        Exit mathTextSequence, Enter mathTextData, Consume (Some 97), Exit mathTextData,
        Enter mathTextSequence, Consume (Some 92), Consume (Some 41),
        Exit mathTextSequence, Exit mathText]\<rparr>) \<and>
   well_nested (emitted (atStart [92, 40, 97, 92, 41]) \<lparr>rest = [], line = 1, log =
       [Enter mathText, Enter mathTextSequence, Consume (Some 92), Consume (Some 40),
        Exit mathTextSequence, Enter mathTextData, Consume (Some 97), Exit mathTextData,
        Enter mathTextSequence, Consume (Some 92), Consume (Some 41),
        Exit mathTextSequence, Exit mathText]\<rparr>) \<and>
   tokenizeMathBracketFlow plainContext (atStart [92, 91, - 4, 92, 93]) =
     (Ok codes_eof \<lparr>rest = [], line = 2, log =
        [Enter mathFlow, Enter mathFlowFence, Enter mathFlowFenceSequence,
         Consume (Some 92), Consume (Some 91), Exit mathFlowFenceSequence,
         Exit mathFlowFence, Enter lineEnding, Consume (Some (- 4)),
         Exit lineEnding, Enter mathFlowFence, Enter mathFlowFenceSequence,
         Consume (Some 92), Consume (Some 93), Exit mathFlowFenceSequence,
         Exit mathFlowFence, Exit mathFlow]\<rparr>, True) \<and>
   \<not> ctx_interrupt plainContext \<and>
   well_nested (emitted (atStart [92, 91, - 4, 92, 93]) \<lparr>rest = [], line = 2, log =
        [Enter mathFlow, Enter mathFlowFence, Enter mathFlowFenceSequence,
         Consume (Some 92), Consume (Some 91), Exit mathFlowFenceSequence,
         Exit mathFlowFence, Enter lineEnding, Consume (Some (- 4)),
         Exit lineEnding, Enter mathFlowFence, Enter mathFlowFenceSequence,
         Consume (Some 92), Consume (Some 93), Exit mathFlowFenceSequence,
         Exit mathFlowFence, Exit mathFlow]\<rparr>) \<and>
   tokenizeMathBracketFlow (plainContext\<lparr>ctx_interrupt := True\<rparr>) (atStart [92, 91, 97]) =
     (Ok codes_eof \<lparr>rest = [], line = 1, log =
        [Enter mathFlow, Enter mathFlowFence, Enter mathFlowFenceSequence,
         Consume (Some 92), Consume (Some 91), Exit mathFlowFenceSequence,
         Enter mathFlowFenceMeta, Enter chunkString, Consume (Some 97),
         Exit chunkString, Exit mathFlowFenceMeta, Exit mathFlowFence]\<rparr>, False) \<and>
   ctx_interrupt (plainContext\<lparr>ctx_interrupt := True\<rparr>) \<and>
   nest [] (emitted (atStart [92, 91, 97]) \<lparr>rest = [], line = 1, log =
        [Enter mathFlow, Enter mathFlowFence, Enter mathFlowFenceSequence,
         Consume (Some 92), Consume (Some 91), Exit mathFlowFenceSequence,
         Enter mathFlowFenceMeta, Enter chunkString, Consume (Some 97),
         Exit chunkString, Exit mathFlowFenceMeta, Exit mathFlowFence]\<rparr>) = Some [mathFlow]"
proof -
  let ?a = "atStart [92, 40, 97, 92, 41]"
  let ?a' = "\<lparr>rest = [], line = 1, log =
       [Enter mathText, Enter mathTextSequence, Consume (Some 92), Consume (Some 40),
        Exit mathTextSequence, Enter mathTextData, Consume (Some 97), Exit mathTextData,
        Enter mathTextSequence, Consume (Some 92), Consume (Some 41),
        Exit mathTextSequence, Exit mathText]\<rparr>"
  let ?b = "atStart [92, 91, - 4, 92, 93]"
  let ?b' = "\<lparr>rest = [], line = 2, log =
        [Enter mathFlow, Enter mathFlowFence, Enter mathFlowFenceSequence,
         Consume (Some 92), Consume (Some 91), Exit mathFlowFenceSequence,
         Exit mathFlowFence, Enter lineEnding, Consume (Some (- 4)),
         Exit lineEnding, Enter mathFlowFence, Enter mathFlowFenceSequence,
         Consume (Some 92), Consume (Some 93), Exit mathFlowFenceSequence,
         Exit mathFlowFence, Exit mathFlow]\<rparr>"
  let ?d = "atStart [92, 91, 97]"
  let ?d' = "\<lparr>rest = [], line = 1, log =
        [Enter mathFlow, Enter mathFlowFence, Enter mathFlowFenceSequence,
         Consume (Some 92), Consume (Some 91), Exit mathFlowFenceSequence,
         Enter mathFlowFenceMeta, Enter chunkString, Consume (Some 97),
         Exit chunkString, Exit mathFlowFenceMeta, Exit mathFlowFence]\<rparr>"
  have a: "tokenizeParensMathText plainContext ?a = Ok (Some 41) ?a'"
    by code_simp
  have a2: "\<not> degrades (emitted ?a ?a')"
    by code_simp
  have b: "tokenizeMathBracketFlow plainContext ?b = (Ok codes_eof ?b', True)"
    by code_simp
  have b2: "\<not> ctx_interrupt plainContext"
    by (simp add: plainContext_def)
  have d: "tokenizeMathBracketFlow (plainContext\<lparr>ctx_interrupt := True\<rparr>) ?d =
      (Ok codes_eof ?d', False)"
    by code_simp
  have d2: "ctx_interrupt (plainContext\<lparr>ctx_interrupt := True\<rparr>)"
    by simp
  from accepted_runs_well_nested [of plainContext ?a "Some 41" ?a' ?b' True] a a2
  have "well_nested (emitted ?a ?a')" by blast
  moreover
  from accepted_runs_well_nested [of plainContext ?b codes_eof ?a' ?b' True] b b2
  have "well_nested (emitted ?b ?b')" by blast
  moreover
  from accepted_runs_well_nested
    [of "plainContext\<lparr>ctx_interrupt := True\<rparr>" ?d codes_eof ?a' ?d' False] d d2
  have "nest [] (emitted ?d ?d') = Some [mathFlow]" by blast
  ultimately show ?thesis using a a2 b b2 d d2 by blast
qed

text \<open>
  C1 (as stated) fails on both paths it names.  Interrupting, the block recognizer
  accepts \<open>\[\<close> with \<open>mathFlow\<close> never closed.  On \<open>\(\ab\)\<close> the inline recognizer
  accepts after exiting \<open>mathTextSequence\<close> while \<open>mathTextData\<close> was the span opened
  last.
\<close>

theorem accepted_runs_not_well_nested:
  "tokenizeMathBracketFlow (plainContext\<lparr>ctx_interrupt := True\<rparr>) (atStart [92, 91]) =
     (Ok codes_eof \<lparr>rest = [], line = 1, log =
        [Enter mathFlow, Enter mathFlowFence, Enter mathFlowFenceSequence,
         Consume (Some 92), Consume (Some 91), Exit mathFlowFenceSequence,
         Exit mathFlowFence]\<rparr>, False) \<and>
   \<not> well_nested
        [Enter mathFlow, Enter mathFlowFence, Enter mathFlowFenceSequence,
         Consume (Some 92), Consume (Some 91), Exit mathFlowFenceSequence,
         Exit mathFlowFence] \<and>
   tokenizeParensMathText plainContext (atStart [92, 40, 92, 97, 98, 92, 41]) =
     Ok (Some 41) \<lparr>rest = [], line = 1, log =
       [Enter mathText, Enter mathTextSequence, Consume (Some 92), Consume (Some 40),
        Exit mathTextSequence, Enter mathTextSequence, Consume (Some 92),
        Enter mathTextData, Consume (Some 97), Exit mathTextSequence, Consume (Some 97),
        Exit mathTextData, Enter mathTextSequence, Consume (Some 92), Consume (Some 41),
        Exit mathTextSequence, Exit mathText]\<rparr> \<and>
   \<not> well_nested
       [Enter mathText, Enter mathTextSequence, Consume (Some 92), Consume (Some 40),
        Exit mathTextSequence, Enter mathTextSequence, Consume (Some 92),
        Enter mathTextData, Consume (Some 97), Exit mathTextSequence, Consume (Some 97),
        Exit mathTextData, Enter mathTextSequence, Consume (Some 92), Consume (Some 41),
        Exit mathTextSequence, Exit mathText]"
  by code_simp

section \<open>A matched closing fence\<close>

text \<open>
  Whether a closing-fence attempt is stale depends on the input at its position only,
  not on the line number or on the calls made so far.
\<close>

lemma current_rest: "rest e1 = rest e2 \<Longrightarrow> current e1 = current e2"
  by (simp add: current_def)

lemma prefix_indep:
  "rest e1 = rest e2 \<Longrightarrow>
     fst (prefix ty limit sz c e1) = fst (prefix ty limit sz c e2) \<and>
     rest (snd (prefix ty limit sz c e1)) = rest (snd (prefix ty limit sz c e2))"
proof (induction ty limit sz c e1 arbitrary: e2 rule: prefix.induct)
  case (1 ty limit sz c e1)
  show ?case
  proof (cases "markdownSpace c \<and> (case limit of None \<Rightarrow> True | Some l \<Rightarrow> sz < l)")
    case True
    from "1.prems" have r: "rest (consume c e1) = rest (consume c e2)"
      by simp
    then have cu: "current (consume c e1) = current (consume c e2)"
      by (rule current_rest)
    from True have
      "prefix ty limit sz c e1 = prefix ty limit (Suc sz) (current (consume c e1)) (consume c e1)"
      "prefix ty limit sz c e2 = prefix ty limit (Suc sz) (current (consume c e2)) (consume c e2)"
      by (subst prefix.simps; simp add: Let_def)+
    with "1.IH" [OF True refl r] cu show ?thesis
      by simp
  next
    case False
    then have "prefix ty limit sz c e1 = (c, exit ty e1)"
      "prefix ty limit sz c e2 = (c, exit ty e2)"
      by (subst prefix.simps; auto)+
    with "1.prems" show ?thesis by simp
  qed
qed

lemma factorySpace_indep:
  assumes "rest e1 = rest e2"
  shows "fst (factorySpace ty mx c e1) = fst (factorySpace ty mx c e2) \<and>
     rest (snd (factorySpace ty mx c e1)) = rest (snd (factorySpace ty mx c e2))"
proof (cases "markdownSpace c")
  case True
  from assms have "rest (enter ty e1) = rest (enter ty e2)" by simp
  from prefix_indep [OF this] True show ?thesis
    by (simp add: factorySpace_def Let_def)
next
  case False
  with assms show ?thesis by (simp add: factorySpace_def Let_def)
qed

lemma sequenceClose_indep:
  assumes r: "rest e1 = rest e2"
  shows "is_nok (fst (sequenceClose False c e1 found)) =
       is_nok (fst (sequenceClose False c e2 found)) \<and>
     snd (sequenceClose False c e1 found) = snd (sequenceClose False c e2 found)"
proof (cases "c = codes_backslash")
  case False
  then show ?thesis by simp
next
  case True
  let ?a1 = "consume c e1" and ?a2 = "consume c e2"
  from r have ra: "rest ?a1 = rest ?a2" by simp
  then have ca: "current ?a1 = current ?a2" by (rule current_rest)
  show ?thesis
  proof (cases "current ?a1 = codes_rightSquareBracket")
    case False
    with True ca show ?thesis by (simp add: Let_def)
  next
    case b: True
    let ?b1 = "exit mathFlowFenceSequence (consume (current ?a1) ?a1)"
    let ?b2 = "exit mathFlowFenceSequence (consume (current ?a2) ?a2)"
    from ra have rb: "rest ?b1 = rest ?b2" by simp
    then have cb: "current ?b1 = current ?b2" by (rule current_rest)
    from factorySpace_indep [OF rb, of whitespace None "current ?b1"] cb
    have "fst (factorySpace whitespace None (current ?b1) ?b1) =
        fst (factorySpace whitespace None (current ?b2) ?b2)"
      by simp
    then have "is_nok (case factorySpace whitespace None (current ?b1) ?b1 of
          (c', e') \<Rightarrow> afterSequenceClose c' e') =
        is_nok (case factorySpace whitespace None (current ?b2) ?b2 of
          (c', e') \<Rightarrow> afterSequenceClose c' e')"
      by (auto simp: afterSequenceClose_def split: prod.splits)
    with True b ca show ?thesis
      by (simp add: Let_def split: prod.splits)
  qed
qed

lemma closingFence_indep:
  assumes r: "rest e1 = rest e2"
  shows "is_nok (fst (tokenizeClosingFence self c e1 found)) =
       is_nok (fst (tokenizeClosingFence self c e2 found)) \<and>
     snd (tokenizeClosingFence self c e1 found) = snd (tokenizeClosingFence self c e2 found)"
proof (cases "ctx_disable_null self")
  case None
  then show ?thesis by (simp add: tokenizeClosingFence_def)
next
  case (Some disabled)
  let ?mx = "if ''codeIndented'' \<in> set disabled then None else Some constants_tabSize"
  obtain c1 x1 where f1: "factorySpace linePrefix ?mx c e1 = (c1, x1)" by (cases "factorySpace linePrefix ?mx c e1")
  obtain c2 x2 where f2: "factorySpace linePrefix ?mx c e2 = (c2, x2)" by (cases "factorySpace linePrefix ?mx c e2")
  from factorySpace_indep [OF r, of linePrefix ?mx c] f1 f2
  have c: "c1 = c2" and x: "rest x1 = rest x2" by simp_all
  from x have "rest (enter mathFlowFenceSequence (enter mathFlowFence x1)) =
      rest (enter mathFlowFenceSequence (enter mathFlowFence x2))"
    by simp
  from sequenceClose_indep [OF this, of c1 found] c Some f1 f2 show ?thesis
    by (simp add: tokenizeClosingFence_def beforeSequenceClose_def Let_def)
qed

lemma closingFence_fresh:
  assumes c: "c = current e" and s: "\<not> stale_attempt self (rest e)"
    and n: "tokenizeClosingFence self c e False = (Nok c' e', f)"
  shows "\<not> f"
proof -
  have "rest e = rest (atStart (rest e))" by (simp add: atStart_def)
  from closingFence_indep [OF this, of self c False] current_rest [OF this] c n
  have "is_nok (fst (tokenizeClosingFence self (current (atStart (rest e)))
          (atStart (rest e)) False)) \<and>
      snd (tokenizeClosingFence self (current (atStart (rest e))) (atStart (rest e)) False) = f"
    by simp
  with s show ?thesis
    by (auto simp: stale_attempt_def split: prod.splits)
qed

lemma stale_attempt_Nil [simp]: "\<not> stale_attempt self []"
  by (simp add: stale_attempt_def tokenizeClosingFence_def atStart_def factorySpace_def
      beforeSequenceClose_def codes_defs current_def split: option.splits)

lemma prefix_spaces:
  "prefix whitespace limit sz c e = (c', e') \<Longrightarrow>
     \<exists>ws. log e' = log e @ ws \<and> list_all fence_space ws"
proof (induction whitespace limit sz c e rule: prefix.induct)
  case (1 limit sz c e)
  show ?case
  proof (cases "markdownSpace c \<and> (case limit of None \<Rightarrow> True | Some l \<Rightarrow> sz < l)")
    case True
    have "prefix whitespace limit (Suc sz) (current (consume c e)) (consume c e) = (c', e')"
      using "1.prems" True by (subst (asm) prefix.simps) (simp add: Let_def)
    with "1.hyps" True obtain ws where
      "log e' = log (consume c e) @ ws" "list_all fence_space ws"
      by blast
    with True show ?thesis
      by (intro exI [of _ "Consume c # ws"]) simp
  next
    case False
    with "1.prems" have "e' = exit whitespace e"
      by (subst (asm) prefix.simps) auto
    then show ?thesis
      by (intro exI [of _ "[Exit whitespace]"]) simp
  qed
qed

lemma factorySpace_spaces:
  assumes "factorySpace whitespace mx c e = (c', e')"
  shows "\<exists>ws. log e' = log e @ ws \<and> list_all fence_space ws"
proof (cases "markdownSpace c")
  case True
  with assms obtain limit where "prefix whitespace limit 0 c (enter whitespace e) = (c', e')"
    by (simp add: factorySpace_def Let_def)
  from prefix_spaces [OF this] obtain ws where
    "log e' = log (enter whitespace e) @ ws" "list_all fence_space ws"
    by blast
  then show ?thesis
    by (intro exI [of _ "Enter whitespace # ws"]) simp
next
  case False
  with assms show ?thesis by (simp add: factorySpace_def Let_def)
qed

lemma adds_log: "adds e e' S S' \<Longrightarrow> \<exists>x. log e' = log e @ x"
  by (auto simp: adds_def)

lemma closingFence_sequence:
  assumes "tokenizeClosingFence self c e found = (Ok c' e', f)"
  shows "\<exists>pre ws. log e' = log e @ pre @ closing_sequence @ ws @ [Exit mathFlowFence] \<and>
     list_all fence_space ws"
proof -
  from assms obtain mx c1 e1 where
    fs: "factorySpace linePrefix mx c e = (c1, e1)" and
    b: "beforeSequenceClose c1 e1 found = (Ok c' e', f)"
    by (auto simp: tokenizeClosingFence_def split: option.splits prod.splits)
  let ?e2 = "consume c1 (enter mathFlowFenceSequence (enter mathFlowFence e1))"
  from b have c1: "c1 = codes_backslash"
    and s1: "sequenceClose True (current ?e2) ?e2 found = (Ok c' e', f)"
    by (auto simp: beforeSequenceClose_def Let_def split: if_splits)
  let ?e3 = "exit mathFlowFenceSequence (consume (current ?e2) ?e2)"
  from s1 obtain c4 e4 where
    c2: "current ?e2 = codes_rightSquareBracket" and
    ws: "factorySpace whitespace None (current ?e3) ?e3 = (c4, e4)" and
    a: "afterSequenceClose c4 e4 = Ok c' e'"
    by (auto simp: Let_def split: if_splits prod.splits)
  from a have e': "e' = exit mathFlowFence e4"
    by (auto simp: afterSequenceClose_def split: if_splits)
  from factorySpace_adds [OF fs, of "[]"] obtain pre where pre: "log e1 = log e @ pre"
    by (auto dest: adds_log)
  from factorySpace_spaces [OF ws] obtain w where
    w: "log e4 = log ?e3 @ w" "list_all fence_space w"
    by blast
  from c2 have "log ?e3 = log e1 @
      [Enter mathFlowFence, Enter mathFlowFenceSequence, Consume c1,
       Consume codes_rightSquareBracket, Exit mathFlowFenceSequence]"
    by simp
  then have "log ?e3 = log e1 @ closing_sequence"
    by (simp add: closing_sequence_def c1)
  with w pre e' have "log e' = log e @ pre @ closing_sequence @ w @ [Exit mathFlowFence]"
    by simp
  with w(2) show ?thesis by blast
qed

lemma fenced_ext: "log e1 = log e @ x \<Longrightarrow> fenced e1 e' \<Longrightarrow> fenced e e'"
  unfolding fenced_def
proof -
  assume l: "log e1 = log e @ x"
    and "\<exists>pre ws. log e' = log e1 @ pre @ closing_sequence @ ws @
          [Exit mathFlowFence, Exit mathFlow] \<and> list_all fence_space ws"
  then obtain pre ws where
    "log e' = log e1 @ pre @ closing_sequence @ ws @ [Exit mathFlowFence, Exit mathFlow]"
    "list_all fence_space ws"
    by blast
  with l have "log e' = log e @ (x @ pre) @ closing_sequence @ ws @
      [Exit mathFlowFence, Exit mathFlow] \<and> list_all fence_space ws"
    by simp
  then show "\<exists>pre ws. log e' = log e @ pre @ closing_sequence @ ws @
          [Exit mathFlowFence, Exit mathFlow] \<and> list_all fence_space ws"
    by blast
qed

lemma fenced_adds: "adds e e1 S S' \<Longrightarrow> fenced e1 e' \<Longrightarrow> fenced e e'"
  by (auto dest!: adds_log intro: fenced_ext)

lemma fenced_enter: "fenced (enter k e) e' \<Longrightarrow> fenced e e'"
  by (rule fenced_ext [of "enter k e" e "[Enter k]"]) simp_all

lemma fenced_exit: "fenced (exit k e) e' \<Longrightarrow> fenced e e'"
  by (rule fenced_ext [of "exit k e" e "[Exit k]"]) simp_all

lemma fenced_consume: "fenced (consume c e) e' \<Longrightarrow> fenced e e'"
  by (rule fenced_ext [of "consume c e" e "[Consume c]"]) simp_all

lemma line_starts_tl: "set (line_starts (tl xs)) \<subseteq> set (line_starts xs)"
  by (cases xs) auto

lemma line_starts_drop: "set (line_starts (drop n xs)) \<subseteq> set (line_starts xs)"
proof (induction n arbitrary: xs)
  case 0
  then show ?case by simp
next
  case (Suc n)
  have "drop (Suc n) xs = drop n (tl xs)" by (simp add: drop_Suc)
  with Suc [of "tl xs"] line_starts_tl [of xs] show ?case by auto
qed

lemma no_stale_tl: "no_stale_attempt self xs \<Longrightarrow> no_stale_attempt self (tl xs)"
  using line_starts_tl [of xs] by (auto simp: no_stale_attempt_def list_all_iff)

lemma no_stale_drop: "no_stale_attempt self xs \<Longrightarrow> no_stale_attempt self (drop n xs)"
  using line_starts_drop [of n xs] by (auto simp: no_stale_attempt_def list_all_iff)

lemma prefix_step:
  "prefix ty limit sz c e = (c', e') \<Longrightarrow> c = current e \<Longrightarrow>
     c' = current e' \<and> (\<exists>n. rest e' = drop n (rest e))"
proof (induction ty limit sz c e rule: prefix.induct)
  case (1 ty limit sz c e)
  show ?case
  proof (cases "markdownSpace c \<and> (case limit of None \<Rightarrow> True | Some l \<Rightarrow> sz < l)")
    case True
    have "prefix ty limit (Suc sz) (current (consume c e)) (consume c e) = (c', e')"
      using "1.prems" True by (subst (asm) prefix.simps) (simp add: Let_def)
    with "1.IH" True obtain n where "c' = current e'" "rest e' = drop n (rest (consume c e))"
      by auto
    then have "c' = current e' \<and> rest e' = drop (Suc n) (rest e)"
      by (simp add: drop_Suc)
    then show ?thesis by blast
  next
    case False
    with "1.prems" have "c' = c \<and> e' = exit ty e"
      by (subst (asm) prefix.simps) auto
    with "1.prems"(2) have "c' = current e' \<and> rest e' = drop 0 (rest e)"
      by (simp add: current_def)
    then show ?thesis by blast
  qed
qed

lemma factorySpace_step:
  assumes "factorySpace ty mx c e = (c', e')" and "c = current e"
  shows "c' = current e' \<and> (\<exists>n. rest e' = drop n (rest e))"
proof (cases "markdownSpace c")
  case True
  with assms(1) obtain limit where "prefix ty limit 0 c (enter ty e) = (c', e')"
    by (simp add: factorySpace_def Let_def)
  from prefix_step [OF this] assms(2) show ?thesis
    by (simp add: current_def)
next
  case False
  with assms have "c' = current e' \<and> rest e' = drop 0 (rest e)"
    by (auto simp: factorySpace_def Let_def)
  then show ?thesis by blast
qed

lemma nonLazy_step:
  assumes a: "attempt (tokenizeNonLazyContinuation self) c e = Ok c' e'"
    and c: "c = current e" and n: "no_stale_attempt self (rest e)"
  shows "c' = current e' \<and> \<not> stale_attempt self (rest e') \<and>
     no_stale_attempt self (rest e')"
proof (cases "c = None")
  case True
  with a have e': "e' = e" "c' = current e"
    by (auto simp: attempt_def tokenizeNonLazyContinuation_def)
  from True c have "rest e = []"
    by (cases "rest e") (simp_all add: current_def)
  with e' n show ?thesis by simp
next
  case False
  with a have le: "markdownLineEnding c"
    and e': "e' = exit lineEnding (consume c (enter lineEnding e))" and c': "c' = current e'"
    by (auto simp: attempt_def tokenizeNonLazyContinuation_def lineStart_def Let_def
        split: if_splits)
  from False c obtain x xs where r: "rest e = x # xs" "c = Some x"
    by (cases "rest e") (simp_all add: current_def)
  with e' have r': "rest e' = xs" by simp
  from r le have "xs \<in> set (line_starts (rest e))" by simp
  with n have "\<not> stale_attempt self xs"
    by (simp add: no_stale_attempt_def list_all_iff)
  moreover from no_stale_tl [OF n] r have "no_stale_attempt self xs" by simp
  ultimately show ?thesis using c' r' by simp
qed

lemma after_eof_fresh: "after c e False = (Ok codes_eof e', f) \<Longrightarrow> False"
  by (auto simp: after_def split: if_splits)

lemma flow_fenced:
  "\<forall>e' f. c = current e \<and> \<not> found \<and> \<not> stale_attempt self (rest e) \<and>
       no_stale_attempt self (rest e) \<and>
       beforeNonLazyContinuation self c e found = (Ok codes_eof e', f) \<longrightarrow> fenced e e'"
  "\<forall>e' f. c = current e \<and> \<not> found \<and> no_stale_attempt self (rest e) \<and>
       contentStart self c e found = (Ok codes_eof e', f) \<longrightarrow> fenced e e'"
  "\<forall>e' f. c = current e \<and> \<not> found \<and> no_stale_attempt self (rest e) \<and>
       beforeContentChunk self c e found = (Ok codes_eof e', f) \<longrightarrow> fenced e e'"
  "\<forall>e' f. c = current e \<and> \<not> found \<and> no_stale_attempt self (rest e) \<and>
       contentChunk self c e found = (Ok codes_eof e', f) \<longrightarrow> fenced e e'"
proof (induction self c e found rule: flow_induct)
  case (beforeNonLazyContinuation self c e found)
  show ?case
  proof (intro allI impI, elim conjE)
    fix e' f
    assume c: "c = current e" and nf: "\<not> found" and s: "\<not> stale_attempt self (rest e)"
      and n: "no_stale_attempt self (rest e)"
      and ok: "beforeNonLazyContinuation self c e found = (Ok codes_eof e', f)"
    obtain r found' where t: "tokenizeClosingFence self c e found = (r, found')"
      by (cases "tokenizeClosingFence self c e found")
    show "fenced e e'"
    proof (cases r)
      case (Ok c1 e1)
      with ok t have "after (current e1) e1 found' = (Ok codes_eof e', f)"
        by (subst (asm) beforeNonLazyContinuation.simps) simp
      then have e': "e' = exit mathFlow e1"
        by (auto simp: after_def split: if_splits)
      from closingFence_sequence [OF t [unfolded Ok]] obtain pre ws where
        "log e1 = log e @ pre @ closing_sequence @ ws @ [Exit mathFlowFence]"
        "list_all fence_space ws"
        by blast
      with e' show ?thesis
        unfolding fenced_def by (intro exI [of _ pre] exI [of _ ws]) simp
    next
      case (Nok c1 e1)
      from closingFence_fresh [OF c s] t Nok nf have f': "\<not> found'" by simp
      from ok t Nok have "contentStart self (current e) e found' = (Ok codes_eof e', f)"
        by (subst (asm) beforeNonLazyContinuation.simps) simp
      with beforeNonLazyContinuation [OF t [unfolded Nok]] f' n show ?thesis
        by blast
    next
      case (Threw err)
      with ok t show ?thesis
        by (subst (asm) beforeNonLazyContinuation.simps) simp
    qed
  qed
next
  case (contentStart self c e found)
  show ?case
  proof (intro allI impI, elim conjE)
    fix e' f
    assume c: "c = current e" and nf: "\<not> found"
      and n: "no_stale_attempt self (rest e)"
      and ok: "contentStart self c e found = (Ok codes_eof e', f)"
    show "fenced e e'"
    proof (cases "ctx_initialSize self = 0")
      case True
      with ok have "beforeContentChunk self c e found = (Ok codes_eof e', f)"
        by (subst (asm) contentStart.simps) simp
      with contentStart(2) [OF True] c nf n show ?thesis by blast
    next
      case False
      obtain c1 e1 where
        fs: "factorySpace linePrefix (Some (ctx_initialSize self + 1)) c e = (c1, e1)"
        by (cases "factorySpace linePrefix (Some (ctx_initialSize self + 1)) c e")
      with ok False have b: "beforeContentChunk self c1 e1 found = (Ok codes_eof e', f)"
        by (subst (asm) contentStart.simps) simp
      from factorySpace_step [OF fs c] obtain k where
        c1: "c1 = current e1" and r: "rest e1 = drop k (rest e)"
        by blast
      from no_stale_drop [OF n, of k] r have "no_stale_attempt self (rest e1)" by simp
      with contentStart(1) [OF False fs] c1 nf b have "fenced e1 e'" by blast
      with factorySpace_adds [OF fs, of "[]"] show ?thesis
        by (rule fenced_adds)
    qed
  qed
next
  case (beforeContentChunk self c e found)
  show ?case
  proof (intro allI impI, elim conjE)
    fix e' f
    assume c: "c = current e" and nf: "\<not> found"
      and n: "no_stale_attempt self (rest e)"
      and ok: "beforeContentChunk self c e found = (Ok codes_eof e', f)"
    consider (eof) "c = codes_eof" | (le) "markdownLineEnding c" | (tx) "\<not> flow_end c"
      by (auto simp: flow_end_def)
    then show "fenced e e'"
    proof cases
      case eof
      with ok nf have "after c e False = (Ok codes_eof e', f)"
        by (subst (asm) beforeContentChunk.simps) simp
      then show ?thesis by (auto dest: after_eof_fresh)
    next
      case le
      then have ne: "c \<noteq> codes_eof" by (auto simp: codes_defs)
      show ?thesis
      proof (cases "attempt (tokenizeNonLazyContinuation self) c e")
        case (Ok c1 e1)
        with ok le ne have b: "beforeNonLazyContinuation self c1 e1 found = (Ok codes_eof e', f)"
          by (subst (asm) beforeContentChunk.simps) simp
        from nonLazy_step [OF Ok c n] beforeContentChunk(1) [OF le Ok] nf b
        have "fenced e1 e'" by blast
        with nonLazy_adds [OF Ok, of "[]"] show ?thesis
          by (rule fenced_adds)
      next
        case (Nok c1 e1)
        then have "c1 = current e"
          by (auto simp: attempt_def split: result.splits)
        with c ne have c1: "c1 \<noteq> codes_eof" by simp
        from ok le ne Nok have "after c1 e1 found = (Ok codes_eof e', f)"
          by (subst (asm) beforeContentChunk.simps) simp
        with c1 show ?thesis
          by (auto simp: after_def split: if_splits)
      next
        case (Threw err)
        with ok le ne show ?thesis
          by (subst (asm) beforeContentChunk.simps) simp
      qed
    next
      case tx
      with ok have "contentChunk self c (enter mathFlowValue e) found = (Ok codes_eof e', f)"
        by (subst (asm) beforeContentChunk.simps) (simp add: flow_end_def)
      with beforeContentChunk(2) [OF tx] c nf n have "fenced (enter mathFlowValue e) e'"
        by (simp add: current_def)
      then show ?thesis by (rule fenced_enter)
    qed
  qed
next
  case (contentChunk self c e found)
  show ?case
  proof (intro allI impI, elim conjE)
    fix e' f
    assume c: "c = current e" and nf: "\<not> found"
      and n: "no_stale_attempt self (rest e)"
      and ok: "contentChunk self c e found = (Ok codes_eof e', f)"
    show "fenced e e'"
    proof (cases "flow_end c")
      case True
      with ok have "beforeContentChunk self c (exit mathFlowValue e) found = (Ok codes_eof e', f)"
        by (subst (asm) contentChunk.simps) (simp add: flow_end_def)
      with contentChunk(1) [OF True] c nf n have "fenced (exit mathFlowValue e) e'"
        by (simp add: current_def)
      then show ?thesis by (rule fenced_exit)
    next
      case False
      with ok have "contentChunk self (current (consume c e)) (consume c e) found =
          (Ok codes_eof e', f)"
        by (subst (asm) contentChunk.simps) (simp add: flow_end_def Let_def)
      moreover from no_stale_tl [OF n] have "no_stale_attempt self (rest (consume c e))"
        by simp
      ultimately have "fenced (consume c e) e'"
        using contentChunk(2) [OF False] nf by blast
      then show ?thesis by (rule fenced_consume)
    qed
  qed
qed

lemma metaAfter_fenced:
  assumes i: "\<not> ctx_interrupt self" and c: "c = current e"
    and n: "no_stale_attempt self (rest e)"
    and ok: "metaAfter self c e False = (Ok codes_eof e', f)"
  shows "fenced e e'"
proof -
  let ?e = "exit mathFlowFence e"
  from c have c': "c = current ?e" by (simp add: current_def)
  from n have n': "no_stale_attempt self (rest ?e)" by simp
  have "fenced ?e e'"
  proof (cases "attempt (tokenizeNonLazyContinuation self) c ?e")
    case (Ok c1 e1)
    with ok i have b: "beforeNonLazyContinuation self c1 e1 False = (Ok codes_eof e', f)"
      by (simp add: metaAfter_def Let_def)
    from nonLazy_step [OF Ok c' n'] flow_fenced(1) [of c1 e1 False self] b
    have "fenced e1 e'" by blast
    with nonLazy_adds [OF Ok, of "[]"] show ?thesis
      by (rule fenced_adds)
  next
    case (Nok c1 e1)
    with ok i have a: "after c1 e1 False = (Ok codes_eof e', f)"
      by (simp add: metaAfter_def Let_def)
    then show ?thesis by (auto dest: after_eof_fresh)
  next
    case (Threw err)
    with ok i show ?thesis by (simp add: metaAfter_def Let_def)
  qed
  then show ?thesis by (rule fenced_exit)
qed

lemma meta_fenced:
  "\<not> ctx_interrupt self \<Longrightarrow> c = current e \<Longrightarrow> no_stale_attempt self (rest e) \<Longrightarrow>
     \<not> found \<Longrightarrow> meta self c e found = (Ok codes_eof e', f) \<Longrightarrow> fenced e e'"
proof (induction self c e found rule: meta.induct)
  case (1 self c e found)
  show ?case
  proof (cases "c = codes_eof \<or> markdownLineEnding c")
    case True
    let ?e = "exit mathFlowFenceMeta (exit chunkString e)"
    from True "1.prems" have "metaAfter self c ?e False = (Ok codes_eof e', f)"
      by (subst (asm) meta.simps) (simp add: Let_def)
    moreover from "1.prems" have "c = current ?e" "no_stale_attempt self (rest ?e)"
      by (simp_all add: current_def)
    ultimately have "fenced ?e e'"
      using "1.prems"(1) by (intro metaAfter_fenced)
    then have "fenced (exit chunkString e) e'" by (rule fenced_exit)
    then show ?thesis by (rule fenced_exit)
  next
    case False
    with "1.prems" have ne: "c \<noteq> codes_rightSquareBracket"
      and r: "meta self (current (consume c e)) (consume c e) found = (Ok codes_eof e', f)"
      by (subst (asm) meta.simps; auto simp: Let_def split: if_splits)+
    from no_stale_tl [OF "1.prems"(3)] have "no_stale_attempt self (rest (consume c e))"
      by simp
    with False ne "1.prems" r have "fenced (consume c e) e'"
      by (intro "1.IH" [of "consume c e"]) auto
    then show ?thesis by (rule fenced_consume)
  qed
qed

lemma tokenizeMathBracketFlow_fenced:
  assumes i: "\<not> ctx_interrupt self" and n: "no_stale_attempt self (rest e)"
    and ok: "tokenizeMathBracketFlow self e = (Ok codes_eof e', f)"
  shows "fenced e e'"
proof -
  let ?e1 = "consume (current e)
      (enter mathFlowFenceSequence (enter mathFlowFence (enter mathFlow e)))"
  let ?e2 = "exit mathFlowFenceSequence (consume (current ?e1) ?e1)"
  obtain c3 e3 where fs: "factorySpace whitespace None (current ?e2) ?e2 = (c3, e3)"
    by (cases "factorySpace whitespace None (current ?e2) ?e2")
  with ok have mb: "metaBefore self c3 e3 False = (Ok codes_eof e', f)"
    by (auto simp: tokenizeMathBracketFlow_def mathFlow_start_def openBracket_def Let_def
        split: if_splits)
  from factorySpace_step [OF fs refl] obtain k where
    c3: "c3 = current e3" and r3: "rest e3 = drop k (rest ?e2)"
    by blast
  have "rest ?e2 = drop 2 (rest e)"
    by (simp add: drop_Suc numeral_2_eq_2 drop_tl)
  with r3 have "rest e3 = drop (k + 2) (rest e)"
    by (simp add: add.commute)
  with no_stale_drop [OF n, of "k + 2"] have n3: "no_stale_attempt self (rest e3)"
    by simp
  have "fenced e3 e'"
  proof (cases "c3 = codes_eof \<or> markdownLineEnding c3")
    case True
    with mb have "metaAfter self c3 e3 False = (Ok codes_eof e', f)"
      by (simp add: metaBefore_def)
    with i c3 n3 show ?thesis by (intro metaAfter_fenced)
  next
    case False
    let ?e4 = "enter chunkString (enter mathFlowFenceMeta e3)"
    from False mb have "meta self c3 ?e4 False = (Ok codes_eof e', f)"
      by (simp add: metaBefore_def Let_def)
    moreover from c3 n3 have "c3 = current ?e4" "no_stale_attempt self (rest ?e4)"
      by (simp_all add: current_def)
    ultimately have "fenced ?e4 e'"
      using i by (intro meta_fenced [of self c3 ?e4 False]) simp_all
    then have "fenced (enter mathFlowFenceMeta e3) e'" by (rule fenced_enter)
    then show ?thesis by (rule fenced_enter)
  qed
  with factorySpace_adds [OF fs, of "[]"] have "fenced ?e2 e'"
    by (rule fenced_adds)
  then have "fenced (consume (current ?e1) ?e1) e'" by (rule fenced_exit)
  then have "fenced ?e1 e'" by (rule fenced_consume)
  then have "fenced (enter mathFlowFenceSequence (enter mathFlowFence (enter mathFlow e))) e'"
    by (rule fenced_consume)
  then have "fenced (enter mathFlowFence (enter mathFlow e)) e'" by (rule fenced_enter)
  then have "fenced (enter mathFlow e) e'" by (rule fenced_enter)
  then show ?thesis by (rule fenced_enter)
qed

section \<open>End of input\<close>

text \<open>
  C4 (as the code has it).  The inline recognizer reaches \<open>ok\<close> only on the right
  parenthesis of a closing sequence: every one of its states that is handed end of input
  ends in \<open>nok\<close>.  The block recognizer, when it is not interrupting and no
  closing-fence attempt of the run fails after it matched the \<open>\\]\<close>, reaches \<open>ok\<close> at
  end of input only after a closing fence line was matched: \<open>foundClosingBracket\<close> is set
  and the calls of the run end with the closing sequence, the whitespace after it, the
  exit of the fence and the exit of \<open>mathFlow\<close>.  \<open>after\<close> at end of input with the
  flag unset is \<open>nok\<close>.
\<close>

theorem end_of_input_rejects:
  "(tokenizeParensMathText self e = Ok c e' \<longrightarrow> c = codes_rightParenthesis) \<and>
   between codes_eof e = Nok codes_eof e \<and>
   data codes_eof e = Nok codes_eof (exit mathTextData e) \<and>
   closeParenthesis codes_eof e =
     Nok codes_eof (exit mathTextData
       (exit mathTextSequence (consume codes_eof (enter mathTextData e)))) \<and>
   openParenthesis codes_eof e = Nok codes_eof e \<and>
   (\<not> ctx_interrupt self \<and> no_stale_attempt self (rest e) \<and>
    tokenizeMathBracketFlow self e = (Ok codes_eof e'', found)
      \<longrightarrow> found \<and>
          (\<exists>pre ws. emitted e e'' =
              pre @ closing_sequence @ ws @ [Exit mathFlowFence, Exit mathFlow] \<and>
            list_all fence_space ws)) \<and>
   after codes_eof e False = (Nok codes_eof e, False)"
proof -
  have block: "\<not> ctx_interrupt self \<and> no_stale_attempt self (rest e) \<and>
    tokenizeMathBracketFlow self e = (Ok codes_eof e'', found)
      \<longrightarrow> found \<and>
          (\<exists>pre ws. emitted e e'' =
              pre @ closing_sequence @ ws @ [Exit mathFlowFence, Exit mathFlow] \<and>
            list_all fence_space ws)"
  proof (intro impI, elim conjE)
    assume i: "\<not> ctx_interrupt self" and n: "no_stale_attempt self (rest e)"
      and ok: "tokenizeMathBracketFlow self e = (Ok codes_eof e'', found)"
    from tokenizeMathBracketFlow_ok_eof [OF i ok] have f: found .
    from tokenizeMathBracketFlow_fenced [OF i n ok] obtain pre ws where
      "log e'' = log e @ pre @ closing_sequence @ ws @ [Exit mathFlowFence, Exit mathFlow]"
      "list_all fence_space ws"
      unfolding fenced_def by blast
    then have "emitted e e'' =
        pre @ closing_sequence @ ws @ [Exit mathFlowFence, Exit mathFlow] \<and>
        list_all fence_space ws"
      by (simp add: emitted_def)
    with f show "found \<and>
          (\<exists>pre ws. emitted e e'' =
              pre @ closing_sequence @ ws @ [Exit mathFlowFence, Exit mathFlow] \<and>
            list_all fence_space ws)"
      by blast
  qed
  have inline: "tokenizeParensMathText self e = Ok c e' \<longrightarrow> c = codes_rightParenthesis"
    using tokenizeParensMathText_ok [of self e c e'] by blast
  have aft: "after codes_eof e False = (Nok codes_eof e, False)"
    by (simp add: after_def)
  from inline block aft show ?thesis
    by (simp only: inline_eof simp_thms)
qed

theorem end_of_input_rejects_witness:
  "tokenizeParensMathText plainContext (atStart [92, 40, 92, 41]) =
     Ok (Some 41) \<lparr>rest = [], line = 1, log =
       [Enter mathText, Enter mathTextSequence, Consume (Some 92), Consume (Some 40),
        Exit mathTextSequence, Enter mathTextSequence, Consume (Some 92), Consume (Some 41),
        Exit mathTextSequence, Exit mathText]\<rparr> \<and>
   Some 41 = codes_rightParenthesis \<and>
   \<not> ctx_interrupt plainContext \<and>
   no_stale_attempt plainContext (rest (atStart [92, 91, - 4, 120, - 4, 32, 92, 93, 32])) \<and>
   tokenizeMathBracketFlow plainContext (atStart [92, 91, - 4, 120, - 4, 32, 92, 93, 32]) =
     (Ok codes_eof \<lparr>rest = [], line = 3, log =
        [Enter mathFlow, Enter mathFlowFence, Enter mathFlowFenceSequence,
         Consume (Some 92), Consume (Some 91), Exit mathFlowFenceSequence,
         Exit mathFlowFence, Enter lineEnding, Consume (Some (- 4)),
         Exit lineEnding, Enter mathFlowValue, Consume (Some 120),
         Exit mathFlowValue, Enter lineEnding, Consume (Some (- 4)),
         Exit lineEnding, Enter linePrefix, Consume (Some 32),
         Exit linePrefix, Enter mathFlowFence, Enter mathFlowFenceSequence,
         Consume (Some 92), Consume (Some 93), Exit mathFlowFenceSequence,
         Enter whitespace, Consume (Some 32), Exit whitespace,
         Exit mathFlowFence, Exit mathFlow]\<rparr>, True) \<and>
   (\<exists>pre ws. emitted (atStart [92, 91, - 4, 120, - 4, 32, 92, 93, 32])
        \<lparr>rest = [], line = 3, log =
        [Enter mathFlow, Enter mathFlowFence, Enter mathFlowFenceSequence,
         Consume (Some 92), Consume (Some 91), Exit mathFlowFenceSequence,
         Exit mathFlowFence, Enter lineEnding, Consume (Some (- 4)),
         Exit lineEnding, Enter mathFlowValue, Consume (Some 120),
         Exit mathFlowValue, Enter lineEnding, Consume (Some (- 4)),
         Exit lineEnding, Enter linePrefix, Consume (Some 32),
         Exit linePrefix, Enter mathFlowFence, Enter mathFlowFenceSequence,
         Consume (Some 92), Consume (Some 93), Exit mathFlowFenceSequence,
         Enter whitespace, Consume (Some 32), Exit whitespace,
         Exit mathFlowFence, Exit mathFlow]\<rparr> =
      pre @ closing_sequence @ ws @ [Exit mathFlowFence, Exit mathFlow] \<and>
      list_all fence_space ws)"
proof -
  let ?e1 = "\<lparr>rest = [], line = 1, log =
       [Enter mathText, Enter mathTextSequence, Consume (Some 92), Consume (Some 40),
        Exit mathTextSequence, Enter mathTextSequence, Consume (Some 92), Consume (Some 41),
        Exit mathTextSequence, Exit mathText]\<rparr>"
  let ?e2 = "\<lparr>rest = [], line = 3, log =
        [Enter mathFlow, Enter mathFlowFence, Enter mathFlowFenceSequence,
         Consume (Some 92), Consume (Some 91), Exit mathFlowFenceSequence,
         Exit mathFlowFence, Enter lineEnding, Consume (Some (- 4)),
         Exit lineEnding, Enter mathFlowValue, Consume (Some 120),
         Exit mathFlowValue, Enter lineEnding, Consume (Some (- 4)),
         Exit lineEnding, Enter linePrefix, Consume (Some 32),
         Exit linePrefix, Enter mathFlowFence, Enter mathFlowFenceSequence,
         Consume (Some 92), Consume (Some 93), Exit mathFlowFenceSequence,
         Enter whitespace, Consume (Some 32), Exit whitespace,
         Exit mathFlowFence, Exit mathFlow]\<rparr>"
  have h1: "tokenizeParensMathText plainContext (atStart [92, 40, 92, 41]) = Ok (Some 41) ?e1"
    by code_simp
  have h2: "tokenizeMathBracketFlow plainContext (atStart [92, 91, - 4, 120, - 4, 32, 92, 93, 32]) =
      (Ok codes_eof ?e2, True)"
    by code_simp
  have h3: "\<not> ctx_interrupt plainContext"
    by (simp add: plainContext_def)
  have h4: "no_stale_attempt plainContext (rest (atStart [92, 91, - 4, 120, - 4, 32, 92, 93, 32]))"
    by code_simp
  have a: "Some 41 = codes_rightParenthesis"
    using end_of_input_rejects [of plainContext "atStart [92, 40, 92, 41]" "Some 41" ?e1] h1
    by blast
  have b: "\<exists>pre ws. emitted (atStart [92, 91, - 4, 120, - 4, 32, 92, 93, 32]) ?e2 =
      pre @ closing_sequence @ ws @ [Exit mathFlowFence, Exit mathFlow] \<and>
      list_all fence_space ws"
    using end_of_input_rejects
      [of plainContext "atStart [92, 91, - 4, 120, - 4, 32, 92, 93, 32]" "Some 41" ?e1 ?e2 True] h2 h3 h4
    by blast
  show ?thesis
    by (intro conjI h1 a h3 h4 h2 b)
qed

text \<open>
  C4 (as stated) fails when the block recognizer interrupts: on \<open>\[\<close> followed by end of
  input it reaches \<open>ok\<close> at end of input, and no closing sequence was ever matched.
\<close>

theorem interrupting_block_accepts_at_eof:
  "tokenizeMathBracketFlow (plainContext\<lparr>ctx_interrupt := True\<rparr>) (atStart [92, 91]) =
     (Ok codes_eof \<lparr>rest = [], line = 1, log =
        [Enter mathFlow, Enter mathFlowFence, Enter mathFlowFenceSequence,
         Consume (Some 92), Consume (Some 91), Exit mathFlowFenceSequence,
         Exit mathFlowFence]\<rparr>, False)"
  by code_simp

text \<open>
  The run left out above: on \<open>\\[\<close>, a line ending, \<open>\\]x\<close> and end of input the
  closing-fence attempt matches the \<open>\\]\<close>, sets the flag and fails on the \<open>x\<close>; the line
  becomes content, and at end of input the flag is still set, so the run reaches \<open>ok\<close>
  though no closing fence was matched.
\<close>

lemma stale_flag_accepts_at_eof:
  "\<not> no_stale_attempt plainContext [92, 91, - 4, 92, 93, 120] \<and>
   tokenizeMathBracketFlow plainContext (atStart [92, 91, - 4, 92, 93, 120]) =
     (Ok codes_eof \<lparr>rest = [], line = 2, log =
        [Enter mathFlow, Enter mathFlowFence, Enter mathFlowFenceSequence,
         Consume (Some 92), Consume (Some 91), Exit mathFlowFenceSequence,
         Exit mathFlowFence, Enter lineEnding, Consume (Some (- 4)),
         Exit lineEnding, Enter mathFlowValue, Consume (Some 92),
         Consume (Some 93), Consume (Some 120), Exit mathFlowValue,
         Exit mathFlow]\<rparr>, True)"
  by code_simp

section \<open>The resolver on the events of an accepted run\<close>

lemma length_spans [simp]: "length (spans ids) = 2 * length ids"
  by (induction ids) simp_all

lemma spans_append [simp]: "spans (xs @ ys) = spans xs @ spans ys"
  by (induction xs) simp_all

lemma typeAt_append_length [simp]:
  "typeAt (A @ ev # B) tokens (length A) = Some (ttype (tokens ! snd ev))"
  by (simp add: typeAt_def)

lemma typeAt_append_Suc_length [simp]:
  "typeAt (A @ ev # ev' # B) tokens (Suc (length A)) = Some (ttype (tokens ! snd ev'))"
  by (simp add: typeAt_def nth_append)

lemma splice_run:
  "splice (Suc (Suc (length P))) (int (length M)) (P @ a # b # M @ B) = P @ a # b # B"
  by (simp add: splice_def)

text \<open>One round of the loop at the exit event of a line ending, nothing collected.\<close>

lemma mergeLoop_None_lineEnding:
  assumes "Suc i = length A" and "ttype (tokens ! w) = lineEnding" and "length A < t"
  shows "mergeLoop (A @ (EnterEvent, w) # (ExitEvent, w) # B) tokens i t None =
         mergeLoop (A @ (EnterEvent, w) # (ExitEvent, w) # B) tokens (Suc (Suc i)) t None"
proof -
  let ?evs = "A @ (EnterEvent, w) # (ExitEvent, w) # B"
  have 1: "mergeLoop ?evs tokens i t None = mergeLoop ?evs tokens (Suc i) t None"
    using assms by (subst mergeLoop.simps) (simp add: Let_def)
  have 2: "mergeLoop ?evs tokens (Suc i) t None = mergeLoop ?evs tokens (Suc (Suc i)) t None"
  proof (cases "Suc (length A) = t")
    case True
    with assms show ?thesis
      by (subst mergeLoop.simps) (simp add: Let_def)
  next
    case False
    with assms show ?thesis
      by (subst mergeLoop.simps) (simp add: Let_def)
  qed
  from 1 2 show ?thesis by simp
qed

lemma closeRun_same: "closeRun tokens r r = tokens[r := (tokens ! r)\<lparr>ttype := mathTextData\<rparr>]"
  by (simp add: closeRun_def Let_def list_update_same_conv)

lemma mergeLoop_None_data:
  assumes "Suc i = length A" and "ttype (tokens ! w) \<noteq> lineEnding" and "Suc (length A) < t"
  shows "mergeLoop (A @ (EnterEvent, w) # (ExitEvent, w) # B) tokens i t None =
         mergeLoop (A @ (EnterEvent, w) # (ExitEvent, w) # B) tokens (Suc (Suc i)) t
           (Some (length A))"
proof -
  let ?evs = "A @ (EnterEvent, w) # (ExitEvent, w) # B"
  have 1: "mergeLoop ?evs tokens i t None = mergeLoop ?evs tokens (Suc i) t (Some (length A))"
    using assms by (subst mergeLoop.simps) (simp add: Let_def)
  have 2: "mergeLoop ?evs tokens (Suc i) t (Some (length A)) =
      mergeLoop ?evs tokens (Suc (Suc i)) t (Some (length A))"
    using assms by (subst mergeLoop.simps) (simp add: Let_def)
  from 1 2 show ?thesis by simp
qed

lemma mergeLoop_Some_data:
  assumes "Suc i = length A" and "ttype (tokens ! w) \<noteq> lineEnding" and "Suc (length A) < t"
  shows "mergeLoop (A @ (EnterEvent, w) # (ExitEvent, w) # B) tokens i t (Some en) =
         mergeLoop (A @ (EnterEvent, w) # (ExitEvent, w) # B) tokens (Suc (Suc i)) t (Some en)"
proof -
  let ?evs = "A @ (EnterEvent, w) # (ExitEvent, w) # B"
  have 1: "mergeLoop ?evs tokens i t (Some en) = mergeLoop ?evs tokens (Suc i) t (Some en)"
    using assms by (subst mergeLoop.simps) (simp add: Let_def)
  have 2: "mergeLoop ?evs tokens (Suc i) t (Some en) =
      mergeLoop ?evs tokens (Suc (Suc i)) t (Some en)"
    using assms by (subst mergeLoop.simps) (simp add: Let_def)
  from 1 2 show ?thesis by simp
qed

lemma mergeLoop_done: "t \<le> i \<Longrightarrow> mergeLoop evs tokens i t en = Inr (evs, tokens)"
  by (subst mergeLoop.simps) (simp add: Let_def)

text \<open>Closing the run that starts at \<open>length P\<close>.\<close>

lemma nat_int_two [simp]: "nat (int a + 2) = Suc (Suc a)" "nat (2 + int a) = Suc (Suc a)"
  by simp_all

lemma nat_int_diff [simp]: "nat (int a - int b) = a - b"
  by (simp add: nat_minus_as_int)

lemma mergeLoop_close:
  assumes l: "l = snd (last ((ExitEvent, r) # M))"
    and t: "Suc (Suc (length P + length M)) \<le> t"
    and stop: "Suc (Suc (length P + length M)) = t \<or>
       (\<exists>w B'. B = (EnterEvent, w) # B' \<and> ttype (tokens ! w) = lineEnding)"
  shows "mergeLoop (P @ (EnterEvent, r) # (ExitEvent, r) # M @ B) tokens
           (Suc (length P + length M)) t (Some (length P)) =
         mergeLoop (P @ (EnterEvent, r) # (ExitEvent, r) # B) (closeRun tokens r l)
           (Suc (Suc (length P))) (t - length M) None"
proof -
  let ?evs = "P @ (EnterEvent, r) # (ExitEvent, r) # M @ B"
  let ?j = "Suc (Suc (length P + length M))"
  have ty: "?j \<noteq> t \<longrightarrow> typeAt ?evs tokens ?j = Some lineEnding"
    using stop by (auto simp: typeAt_def nth_append)
  have en: "?evs ! length P = (EnterEvent, r)" by simp
  show ?thesis
  proof (cases "M = []")
    case True
    with l have "l = r" by simp
    with ty t True show ?thesis
      by (subst mergeLoop.simps) (auto simp: Let_def setType_def closeRun_same)
  next
    case False
    have last: "?evs ! Suc (length P + length M) = last M"
      using False by (simp add: nth_append last_conv_nth)
    have l': "l = snd (last M)" using l False by simp
    have sp: "splice (Suc (Suc (length P))) (int (length M)) ?evs =
        P @ (EnterEvent, r) # (ExitEvent, r) # B"
      by (rule splice_run)
    have tl: "nat (int t - int (length M)) = t - length M"
      by simp
    have step: "mergeLoop ?evs tokens (Suc (length P + length M)) t (Some (length P)) =
      mergeLoop (splice (Suc (Suc (length P))) (int (length M)) ?evs)
        (setEnd ?evs (setType ?evs tokens (length P) mathTextData) (length P)
           (tend (setType ?evs tokens (length P) mathTextData ! snd (?evs ! Suc (length P + length M)))))
        (Suc (Suc (length P))) (t - length M) None"
      using ty t False
      by (subst mergeLoop.simps) (auto simp: Let_def)
    show ?thesis
      unfolding step sp last
      by (simp add: setType_def setEnd_def closeRun_def Let_def l')
  qed
qed

lemma mergeLoop_None_at_tail: "Suc i = t \<Longrightarrow> mergeLoop evs tokens i t None = Inr (evs, tokens)"
  by (subst mergeLoop.simps) (simp add: Let_def mergeLoop_done)

lemma mergeLoop_skip_exit:
  assumes "Suc i = length A" and "ttype (tokens ! w) = lineEnding" and "length A \<le> t"
  shows "mergeLoop (A @ (ExitEvent, w) # B) tokens i t None =
         mergeLoop (A @ (ExitEvent, w) # B) tokens (Suc i) t None"
  using assms by (subst mergeLoop.simps) (auto simp: Let_def)

lemma closeRun_other [simp]: "w \<noteq> r \<Longrightarrow> closeRun tokens r l ! w = tokens ! w"
  by (simp add: closeRun_def Let_def)

lemma mergeLoop_spans:
  "distinct W \<Longrightarrow> Suc i = length A \<Longrightarrow> t = length A + 2 * length W \<Longrightarrow>
     mergeLoop (A @ spans W @ B) tokens i t None =
       Inr (A @ spans (fst (mergeSpans tokens W)) @ B, snd (mergeSpans tokens W))"
  "distinct W \<Longrightarrow> r \<notin> set W \<Longrightarrow> l = snd (last ((ExitEvent, r) # M)) \<Longrightarrow>
     t = Suc (Suc (length P + length M)) + 2 * length W \<Longrightarrow>
     mergeLoop (P @ (EnterEvent, r) # (ExitEvent, r) # M @ spans W @ B) tokens
         (Suc (length P + length M)) t (Some (length P)) =
       Inr (P @ spans (fst (mergeRun tokens r l W)) @ B, snd (mergeRun tokens r l W))"
proof (induction W arbitrary: A i t tokens P M l r)
  case Nil
  {
    case 1
    then show ?case by (simp add: mergeLoop_None_at_tail)
  next
    case 2
    then show ?case
      using mergeLoop_close [of l r M P t B tokens]
      by (simp add: mergeLoop_done)
  }
next
  case (Cons w W)
  {
    case 1
    let ?evs = "A @ (EnterEvent, w) # (ExitEvent, w) # spans W @ B"
    from 1 have d: "distinct W" "w \<notin> set W" by simp_all
    show ?case
    proof (cases "ttype (tokens ! w) = lineEnding")
      case True
      have "mergeLoop ?evs tokens i t None = mergeLoop ?evs tokens (Suc (Suc i)) t None"
        using 1 True by (intro mergeLoop_None_lineEnding) simp_all
      also have "\<dots> = mergeLoop ((A @ [(EnterEvent, w), (ExitEvent, w)]) @ spans W @ B) tokens
          (Suc (Suc i)) t None" by simp
      also have "\<dots> = Inr ((A @ [(EnterEvent, w), (ExitEvent, w)]) @
          spans (fst (mergeSpans tokens W)) @ B, snd (mergeSpans tokens W))"
        using 1 d by (intro Cons.IH(1)) simp_all
      finally show ?thesis using True by (simp add: split_beta)
    next
      case False
      have "mergeLoop ?evs tokens i t None =
          mergeLoop ?evs tokens (Suc (Suc i)) t (Some (length A))"
        using 1 False by (intro mergeLoop_None_data) simp_all
      also have "\<dots> = mergeLoop (A @ (EnterEvent, w) # (ExitEvent, w) # [] @ spans W @ B) tokens
          (Suc (length A + length ([] :: event list))) t (Some (length A))"
        using 1 by simp
      also have "\<dots> = Inr (A @ spans (fst (mergeRun tokens w w W)) @ B,
          snd (mergeRun tokens w w W))"
        using 1 d by (intro Cons.IH(2)) simp_all
      finally show ?thesis using False by simp
    qed
  next
    case 2
    let ?evs = "P @ (EnterEvent, r) # (ExitEvent, r) # M @ (EnterEvent, w) # (ExitEvent, w) #
        spans W @ B"
    from 2 have d: "distinct W" "w \<notin> set W" "r \<notin> set W" "r \<noteq> w" by auto
    show ?case
    proof (cases "ttype (tokens ! w) = lineEnding")
      case True
      let ?tokens = "closeRun tokens r l"
      let ?evs' = "P @ (EnterEvent, r) # (ExitEvent, r) # (EnterEvent, w) # (ExitEvent, w) #
        spans W @ B"
      have ty: "ttype (?tokens ! w) = lineEnding" using True d by simp
      have "mergeLoop ?evs tokens (Suc (length P + length M)) t (Some (length P)) =
          mergeLoop ?evs' ?tokens (Suc (Suc (length P))) (t - length M) None"
        using 2 True
        by (intro mergeLoop_close [of l r M P t
              "(EnterEvent, w) # (ExitEvent, w) # spans W @ B" tokens]) simp_all
      also have "\<dots> = mergeLoop ((P @ [(EnterEvent, r), (ExitEvent, r), (EnterEvent, w)]) @
          (ExitEvent, w) # spans W @ B) ?tokens (Suc (Suc (length P))) (t - length M) None"
        by simp
      also have "\<dots> = mergeLoop ((P @ [(EnterEvent, r), (ExitEvent, r), (EnterEvent, w)]) @
          (ExitEvent, w) # spans W @ B) ?tokens (Suc (Suc (Suc (length P)))) (t - length M) None"
        using 2 ty by (intro mergeLoop_skip_exit) simp_all
      also have "\<dots> = mergeLoop
          ((P @ [(EnterEvent, r), (ExitEvent, r), (EnterEvent, w), (ExitEvent, w)]) @
            spans W @ B) ?tokens (Suc (Suc (Suc (length P)))) (t - length M) None"
        by simp
      also have "\<dots> = Inr ((P @ [(EnterEvent, r), (ExitEvent, r), (EnterEvent, w), (ExitEvent, w)]) @
          spans (fst (mergeSpans ?tokens W)) @ B, snd (mergeSpans ?tokens W))"
        using 2 d by (intro Cons.IH(1)) simp_all
      finally show ?thesis using True by (simp add: split_beta)
    next
      case False
      have "mergeLoop ?evs tokens (Suc (length P + length M)) t (Some (length P)) =
          mergeLoop ((P @ (EnterEvent, r) # (ExitEvent, r) # M) @ (EnterEvent, w) # (ExitEvent, w) #
            spans W @ B) tokens (Suc (length P + length M)) t (Some (length P))"
        by simp
      also have "\<dots> = mergeLoop ((P @ (EnterEvent, r) # (ExitEvent, r) # M) @
            (EnterEvent, w) # (ExitEvent, w) # spans W @ B) tokens
            (Suc (Suc (Suc (length P + length M)))) t (Some (length P))"
        using 2 False by (intro mergeLoop_Some_data) simp_all
      also have "\<dots> = mergeLoop (P @ (EnterEvent, r) # (ExitEvent, r) #
            (M @ [(EnterEvent, w), (ExitEvent, w)]) @ spans W @ B) tokens
            (Suc (length P + length (M @ [(EnterEvent, w), (ExitEvent, w)]))) t (Some (length P))"
        by simp
      also have "\<dots> = Inr (P @ spans (fst (mergeRun tokens r w W)) @ B,
          snd (mergeRun tokens r w W))"
        using 2 d by (intro Cons.IH(2)) simp_all
      finally show ?thesis using False by simp
    qed
  }
qed

lemma haveData_events:
  "Suc i = length A \<Longrightarrow>
     haveData (A @ E @ B) tokens i (length A + length E) =
       Inr (\<exists>ev \<in> set E. ttype (tokens ! snd ev) = mathTextData)"
proof (induction E arbitrary: A i)
  case Nil
  then show ?case by (subst haveData.simps) (simp add: Let_def)
next
  case (Cons ev E)
  have "haveData ((A @ [ev]) @ E @ B) tokens (Suc i) (length (A @ [ev]) + length E) =
      Inr (\<exists>ev \<in> set E. ttype (tokens ! snd ev) = mathTextData)"
    using Cons.prems by (intro Cons.IH) simp
  with Cons.prems show ?case
    by (subst haveData.simps) (auto simp: Let_def)
qed

lemma edge_typeAt [simp]: "edge (Some k) = edgeKind k"
  by (simp add: edge_def edgeKind_def)

lemma resolveMathText_frame:
  assumes d: "distinct ids" and c: "\<not> edgeKind (ttype (tokens ! closing))"
  shows "resolveMathText (frame m opening ids closing, tokens) =
     Inr (frame m opening (fst (resolveSpans tokens ids)) closing, snd (resolveSpans tokens ids))"
proof -
  let ?h = "[(EnterEvent, m), (EnterEvent, opening), (ExitEvent, opening)]"
  let ?f = "[(EnterEvent, closing), (ExitEvent, closing), (ExitEvent, m)]"
  let ?evs = "frame m opening ids closing"
  have fr: "?evs = ?h @ spans ids @ ?f" by (simp add: frame_def)
  have tl: "length ?evs - 4 + 1 = length ?h + 2 * length ids" by (simp add: frame_def)
  have "mergeLoop (?h @ spans ids @ ?f) tokens 2 (length ?h + 2 * length ids) None =
      Inr (?h @ spans (fst (mergeSpans tokens ids)) @ ?f, snd (mergeSpans tokens ids))"
    using d by (rule mergeLoop_spans(1)) simp_all
  then have plain: "mergeLoop ?evs tokens (3 - 1) (length ?evs - 4 + 1) None =
      Inr (frame m opening (fst (mergeSpans tokens ids)) closing, snd (mergeSpans tokens ids))"
    unfolding tl unfolding fr by (simp add: frame_def)
  consider (none) "ids = []" | (one) x where "ids = [x]"
    | (more) x mid y where "ids = x # mid @ [y]"
  proof (cases ids)
    case Nil
    then show ?thesis using none by simp
  next
    case (Cons x xs)
    show ?thesis
    proof (cases xs rule: rev_cases)
      case Nil
      with Cons one show ?thesis by simp
    next
      case (snoc mid y)
      with Cons more show ?thesis by simp
    qed
  qed
  then show ?thesis
  proof cases
    case none
    have t3: "typeAt ?evs tokens 3 = Some (ttype (tokens ! closing))"
      using none by (simp add: frame_def typeAt_def)
    have "resolveMathText (?evs, tokens) = mergeLoop ?evs tokens (3 - 1) (length ?evs - 4 + 1) None"
      using c by (simp add: resolveMathText_def Let_def t3)
    with plain none show ?thesis
      by (simp add: resolveSpans_def padded_def)
  next
    case (one x)
    have l: "length ?evs - 4 = 4" using one by (simp add: frame_def)
    have t3: "typeAt ?evs tokens 3 = Some (ttype (tokens ! x))"
      using one by (simp add: frame_def typeAt_def)
    have hd: "haveData ?evs tokens 3 (length ?evs - 4) = Inr False"
      unfolding l by (subst haveData.simps) (simp add: Let_def)
    have "resolveMathText (?evs, tokens) = mergeLoop ?evs tokens (3 - 1) (length ?evs - 4 + 1) None"
      by (simp add: resolveMathText_def Let_def t3 hd)
    with plain one show ?thesis
      by (simp add: resolveSpans_def padded_def)
  next
    case (more x mid y)
    let ?A = "?h @ [(EnterEvent, x)]"
    let ?E = "(ExitEvent, x) # spans mid @ [(EnterEvent, y)]"
    have evs: "?evs = ?A @ ?E @ (ExitEvent, y) # ?f"
      using more by (simp add: frame_def)
    have len: "length ?evs - 4 = length ?A + length ?E"
      using more by (simp add: frame_def)
    have t3: "typeAt ?evs tokens 3 = Some (ttype (tokens ! x))"
      using more by (simp add: frame_def typeAt_def)
    have tt: "typeAt ?evs tokens (length ?evs - 4) = Some (ttype (tokens ! y))"
      unfolding len unfolding evs
      using typeAt_append_length [of "?A @ ?E" "(ExitEvent, y)" ?f tokens] by simp
    have hd: "haveData ?evs tokens 3 (length ?evs - 4) =
        Inr (\<exists>ev \<in> set ?E. ttype (tokens ! snd ev) = mathTextData)"
      unfolding len unfolding evs by (rule haveData_events) simp
    have x3: "snd (?evs ! 3) = x" using more by (simp add: frame_def)
    have xt: "snd (?evs ! (length ?evs - 4)) = y"
      unfolding len unfolding evs
      using nth_append_length [of "?A @ ?E" "(ExitEvent, y)" ?f] by simp
    have mid: "(\<exists>ev \<in> set ?E. ttype (tokens ! snd ev) = mathTextData) \<longleftrightarrow>
        ttype (tokens ! x) = mathTextData \<or> ttype (tokens ! y) = mathTextData \<or>
        (\<exists>i \<in> set mid. ttype (tokens ! i) = mathTextData)"
      by (induction mid) auto
    show ?thesis
    proof (cases "padded tokens ids")
      case True
      then have e: "edgeKind (ttype (tokens ! x))" "edgeKind (ttype (tokens ! y))"
        and dt: "\<exists>i \<in> set mid. ttype (tokens ! i) = mathTextData"
        using more by (simp_all add: padded_def)
      let ?t1 = "tokens[y := (tokens ! y)\<lparr>ttype := mathTextPadding\<rparr>]"
      let ?tokens = "?t1[x := (?t1 ! x)\<lparr>ttype := mathTextPadding\<rparr>]"
      from dt hd mid have hd': "haveData ?evs tokens 3 (length ?evs - 4) = Inr True" by simp
      have dm: "distinct mid" using d more by simp
      let ?A2 = "?h @ [(EnterEvent, x), (ExitEvent, x)]"
      let ?B2 = "(EnterEvent, y) # (ExitEvent, y) # ?f"
      have evs2: "?evs = ?A2 @ spans mid @ ?B2" using more by (simp add: frame_def)
      have tl2: "length ?evs - 4 - 2 + 1 = length ?A2 + 2 * length mid"
        using more by (simp add: frame_def)
      have "mergeLoop (?A2 @ spans mid @ ?B2) ?tokens 4 (length ?A2 + 2 * length mid) None =
          Inr (?A2 @ spans (fst (mergeSpans ?tokens mid)) @ ?B2, snd (mergeSpans ?tokens mid))"
        using dm by (rule mergeLoop_spans(1)) simp_all
      then have m: "mergeLoop ?evs ?tokens (3 + 2 - 1) (length ?evs - 4 - 2 + 1) None =
          Inr (frame m opening (x # fst (mergeSpans ?tokens mid) @ [y]) closing,
               snd (mergeSpans ?tokens mid))"
        unfolding tl2 unfolding evs2 by (simp add: frame_def)
      have "resolveMathText (?evs, tokens) =
          mergeLoop ?evs ?tokens (3 + 2 - 1) (length ?evs - 4 - 2 + 1) None"
        using e by (simp add: resolveMathText_def Let_def t3 tt hd' setType_def x3 xt)
      with m True more show ?thesis
        by (simp add: resolveSpans_def Let_def split_beta)
    next
      case False
      have "resolveMathText (?evs, tokens) =
          mergeLoop ?evs tokens (3 - 1) (length ?evs - 4 + 1) None"
      proof (cases "edgeKind (ttype (tokens ! x)) \<and> edgeKind (ttype (tokens ! y))")
        case True
        with False more have "\<not> (\<exists>i \<in> set mid. ttype (tokens ! i) = mathTextData)"
          by (simp add: padded_def)
        with True mid have "\<not> (\<exists>ev \<in> set ?E. ttype (tokens ! snd ev) = mathTextData)"
          by (auto simp: edgeKind_def)
        with hd have "haveData ?evs tokens 3 (length ?evs - 4) = Inr False"
          by simp
        then show ?thesis
          by (simp add: resolveMathText_def Let_def t3 tt)
      next
        case False
        then show ?thesis
          by (auto simp: resolveMathText_def Let_def t3 tt)
      qed
      with plain False show ?thesis
        by (simp add: resolveSpans_def)
    qed
  qed
qed

section \<open>Span-level facts\<close>

lemma length_closeRun [simp]: "length (closeRun t r l) = length t"
  by (simp add: closeRun_def Let_def)

lemma closeRun_nth:
  "r < length t \<Longrightarrow>
     closeRun t r l ! r = \<lparr>ttype = mathTextData, tstart = tstart (t ! r), tend = tend (t ! l)\<rparr>"
  by (cases "l = r") (simp_all add: closeRun_def Let_def)

lemma closeRun_data:
  "r < length t \<Longrightarrow> ttype (t ! r) = mathTextData \<Longrightarrow> closeRun t r r = t"
  by (simp add: closeRun_same list_update_same_conv)

lemma merge_untouched:
  "i \<notin> set W \<Longrightarrow> snd (mergeSpans t W) ! i = t ! i"
  "i \<notin> set W \<Longrightarrow> i \<noteq> r \<Longrightarrow> snd (mergeRun t r l W) ! i = t ! i"
  by (induction t W and t r l W rule: mergeSpans_mergeRun.induct)
     (simp_all add: split_beta)

lemma merge_length:
  "length (snd (mergeSpans t W)) = length t"
  "length (snd (mergeRun t r l W)) = length t"
  by (induction t W and t r l W rule: mergeSpans_mergeRun.induct)
     (simp_all add: split_beta)

lemma merge_set:
  "set (fst (mergeSpans t W)) \<subseteq> set W"
  "set (fst (mergeRun t r l W)) \<subseteq> insert r (set W)"
  by (induction t W and t r l W rule: mergeSpans_mergeRun.induct)
     (auto simp: split_beta)

lemma merge_distinct:
  "distinct W \<Longrightarrow> distinct (fst (mergeSpans t W))"
  "distinct W \<Longrightarrow> r \<notin> set W \<Longrightarrow> distinct (fst (mergeRun t r l W))"
proof (induction t W and t r l W rule: mergeSpans_mergeRun.induct)
  case (2 tokens w ws)
  then show ?case using merge_set(1) [of tokens ws] by (auto simp: split_beta)
next
  case (4 tokens r l w ws)
  then show ?case using merge_set(1) [of "closeRun tokens r l" ws] by (auto simp: split_beta)
qed simp_all

text \<open>The tokens of the merged window are the coalesced tokens of the window.\<close>

lemma merge_coalesce:
  "distinct W \<Longrightarrow> \<forall>i \<in> set W. i < length t \<Longrightarrow>
     map ((!) (snd (mergeSpans t W))) (fst (mergeSpans t W)) = coalesce (map ((!) t) W)"
  "distinct W \<Longrightarrow> r \<notin> set W \<Longrightarrow> r < length t \<Longrightarrow> \<forall>i \<in> set W. i < length t \<Longrightarrow>
     map ((!) (snd (mergeRun t r l W))) (fst (mergeRun t r l W)) =
       \<lparr>ttype = mathTextData, tstart = tstart (t ! r),
        tend = tend (t ! last (l # takeWhile (\<lambda>i. ttype (t ! i) \<noteq> lineEnding) W))\<rparr>
       # coalesce (map ((!) t) (dropWhile (\<lambda>i. ttype (t ! i) \<noteq> lineEnding) W))"
proof (induction t W and t r l W rule: mergeSpans_mergeRun.induct)
  case (1 tokens)
  then show ?case by simp
next
  case (2 tokens w ws)
  show ?case
  proof (cases "ttype (tokens ! w) = lineEnding")
    case True
    with 2 show ?thesis
      by (simp add: split_beta merge_untouched)
  next
    case False
    with 2 show ?thesis
      by (simp add: takeWhile_map dropWhile_map last_map comp_def)
  qed
next
  case (3 tokens r l)
  then show ?case by (simp add: closeRun_nth)
next
  case (4 tokens r l w ws)
  show ?case
  proof (cases "ttype (tokens ! w) = lineEnding")
    case True
    have same: "map ((!) (closeRun tokens r l)) ws = map ((!) tokens) ws"
      using 4(4) by (intro map_cong refl closeRun_other) auto
    from True 4 show ?thesis
      by (simp add: split_beta merge_untouched closeRun_nth same)
  next
    case False
    with 4 show ?thesis by simp
  qed
qed

lemma coalesce_types: "u \<in> set (coalesce xs) \<Longrightarrow> ttype u = lineEnding \<or> ttype u = mathTextData"
  by (induction xs rule: coalesce.induct) (auto split: if_splits)

lemma coalesce_Nil [simp]: "coalesce xs = [] \<longleftrightarrow> xs = []"
  by (cases xs) simp_all

lemma coalesce_hd:
  "xs \<noteq> [] \<Longrightarrow> ttype (hd xs) \<noteq> lineEnding \<Longrightarrow> ttype (hd (coalesce xs)) = mathTextData"
  by (cases xs) simp_all

lemma coalesce_last:
  "xs \<noteq> [] \<Longrightarrow> ttype (last xs) \<noteq> lineEnding \<Longrightarrow> ttype (last (coalesce xs)) = mathTextData"
proof (induction xs rule: coalesce.induct)
  case 1
  then show ?case by simp
next
  case (2 s ss)
  let ?P = "\<lambda>u. ttype u \<noteq> lineEnding"
  show ?case
  proof (cases "ttype s = lineEnding")
    case True
    with 2 show ?thesis by (cases ss) (auto split: if_splits)
  next
    case False
    show ?thesis
    proof (cases "dropWhile ?P ss = []")
      case True
      with False show ?thesis by simp
    next
      case d: False
      then have "ss \<noteq> []" by auto
      have "last ss = last (takeWhile ?P ss @ dropWhile ?P ss)" by simp
      also have "\<dots> = last (dropWhile ?P ss)" using d by (rule last_appendR)
      finally have "last (dropWhile ?P ss) = last ss" by simp
      with 2 False d \<open>ss \<noteq> []\<close> show ?thesis by simp
    qed
  qed
qed

lemma merge_types:
  assumes "distinct W" and "\<forall>i \<in> set W. i < length t" and "i \<in> set (fst (mergeSpans t W))"
  shows "ttype (snd (mergeSpans t W) ! i) = lineEnding \<or>
         ttype (snd (mergeSpans t W) ! i) = mathTextData"
proof -
  from assms(3) have "snd (mergeSpans t W) ! i \<in>
      set (map ((!) (snd (mergeSpans t W))) (fst (mergeSpans t W)))" by simp
  then have "snd (mergeSpans t W) ! i \<in> set (coalesce (map ((!) t) W))"
    using merge_coalesce(1) [OF assms(1,2)] by simp
  then show ?thesis by (rule coalesce_types)
qed

lemma merge_idem:
  "distinct W \<Longrightarrow> \<forall>i \<in> set W. i < length t \<Longrightarrow>
     mergeSpans (snd (mergeSpans t W)) (fst (mergeSpans t W)) = mergeSpans t W"
  "distinct W \<Longrightarrow> r \<notin> set W \<Longrightarrow> r < length t \<Longrightarrow> \<forall>i \<in> set W. i < length t \<Longrightarrow>
     mergeSpans (snd (mergeRun t r l W)) (fst (mergeRun t r l W)) = mergeRun t r l W"
proof (induction t W and t r l W rule: mergeSpans_mergeRun.induct)
  case (1 tokens)
  then show ?case by simp
next
  case (2 tokens w ws)
  show ?case
  proof (cases "ttype (tokens ! w) = lineEnding")
    case True
    with 2 show ?thesis
      by (simp add: split_beta merge_untouched)
  next
    case False
    with 2 show ?thesis by simp
  qed
next
  case (3 tokens r l)
  then show ?case
    by (simp add: closeRun_nth closeRun_data)
next
  case (4 tokens r l w ws)
  show ?case
  proof (cases "ttype (tokens ! w) = lineEnding")
    case True
    let ?t1 = "closeRun tokens r l"
    let ?t' = "snd (mergeSpans ?t1 ws)"
    from 4 have r: "?t' ! r = ?t1 ! r" and w: "?t' ! w = tokens ! w"
      by (simp_all add: merge_untouched)
    from 4 have rd: "ttype (?t' ! r) = mathTextData"
      by (simp add: r closeRun_nth)
    have "closeRun ?t' r r = ?t'"
      using 4 rd by (intro closeRun_data) (simp_all add: merge_length)
    moreover have "mergeSpans ?t' (fst (mergeSpans ?t1 ws)) = mergeSpans ?t1 ws"
      using 4 True by (intro "4.IH"(1)) simp_all
    ultimately show ?thesis
      using True rd w by (simp add: split_beta)
  next
    case False
    with 4 show ?thesis by simp
  qed
qed

lemma merge_hd:
  "W \<noteq> [] \<Longrightarrow> fst (mergeSpans t W) \<noteq> [] \<and> hd (fst (mergeSpans t W)) = hd W"
  "fst (mergeRun t r l W) \<noteq> [] \<and> hd (fst (mergeRun t r l W)) = r"
  by (induction t W and t r l W rule: mergeSpans_mergeRun.induct)
     (simp_all add: split_beta)

lemma padded_shape:
  assumes "padded tokens ids"
  obtains x mid y where "ids = x # mid @ [y]" "hd ids = x" "last ids = y"
    "butlast (tl ids) = mid"
proof -
  from assms have ne: "ids \<noteq> []" and "butlast (tl ids) \<noteq> []"
    by (auto simp: padded_def)
  then have "tl ids \<noteq> []" by auto
  then obtain mid y where "tl ids = mid @ [y]" by (cases "tl ids" rule: rev_cases) auto
  with ne have "ids = hd ids # mid @ [y]" by (cases ids) auto
  then show ?thesis using that [of "hd ids" mid y] by (metis butlast_snoc last_ConsR last_snoc list.sel(1) list.sel(3) snoc_eq_iff_butlast)
qed

lemma pad_edges_facts:
  "length (pad_edges t x y) = length t"
  "i \<noteq> x \<Longrightarrow> i \<noteq> y \<Longrightarrow> pad_edges t x y ! i = t ! i"
  "x < length t \<Longrightarrow> ttype (pad_edges t x y ! x) = mathTextPadding"
  "y < length t \<Longrightarrow> ttype (pad_edges t x y ! y) = mathTextPadding"
  by (auto simp: pad_edges_def Let_def nth_list_update)

lemma resolveSpans_padded:
  assumes "padded tokens ids" and "ids = x # mid @ [y]"
  shows "resolveSpans tokens ids =
     (x # fst (mergeSpans (pad_edges tokens x y) mid) @ [y],
      snd (mergeSpans (pad_edges tokens x y) mid))"
  using assms by (simp add: resolveSpans_def pad_edges_def Let_def split_beta)

section \<open>The events of an accepted inline run\<close>

text \<open>
  An accepted run of the inline recognizer that does not take the degrade path has a log
  of the shape above, and the engine turns such a log into a valid inline event list:
  the container, the opening fence, the interior spans of kind space, line ending or
  data, each entered and exited in turn, and the closing fence.
\<close>

lemma inline_shape:
  "\<forall>c' e'. between c e = Ok c' e' \<longrightarrow>
     (\<exists>tr. log e' = log e @ tr \<and>
        (\<not> degrades_from False tr \<longrightarrow>
           (\<exists>xs. (\<forall>x \<in> set xs. content_kind (fst x)) \<and> tr = content_log xs)))"
  "\<forall>c' e'. closeParenthesis c e = Ok c' e' \<longrightarrow>
     (\<exists>tr. log e' = log e @ tr \<and>
        (\<not> degrades_from True tr \<longrightarrow>
           tr = [Consume codes_rightParenthesis, Exit mathTextSequence, Exit mathText]))"
  "\<forall>c' e'. data c e = Ok c' e' \<longrightarrow>
     (\<exists>tr. log e' = log e @ tr \<and>
        (\<not> degrades_from False tr \<longrightarrow>
           (\<exists>cs xs. (\<forall>x \<in> set xs. content_kind (fst x)) \<and>
              tr = map Consume cs @ Exit mathTextData # content_log xs)))"
proof (induction c e rule: inline_induct)
  case (between c e)
  show ?case
  proof (intro allI impI)
    fix c' e' assume ok: "between c e = Ok c' e'"
    consider (bs) "c = codes_backslash" | (sp) "c \<noteq> codes_backslash" "c = codes_space"
      | (le) "c \<noteq> codes_backslash" "c \<noteq> codes_space" "markdownLineEnding c"
      | (dt) "\<not> text_end c" | (eof) "c = codes_eof"
      by (auto simp: text_end_def)
    then show "\<exists>tr. log e' = log e @ tr \<and>
        (\<not> degrades_from False tr \<longrightarrow>
           (\<exists>xs. (\<forall>x \<in> set xs. content_kind (fst x)) \<and> tr = content_log xs))"
    proof cases
      case bs
      with ok have "closeParenthesis (current (consume c (enter mathTextSequence e)))
          (consume c (enter mathTextSequence e)) = Ok c' e'"
        by (subst (asm) between.simps) (simp add: Let_def codes_defs)
      with between(1) [OF bs] obtain tr1 where
        l: "log e' = log (consume c (enter mathTextSequence e)) @ tr1" and
        s: "\<not> degrades_from True tr1 \<longrightarrow>
          tr1 = [Consume codes_rightParenthesis, Exit mathTextSequence, Exit mathText]"
        by blast
      show ?thesis
      proof (intro exI [of _ "Enter mathTextSequence # Consume c # tr1"] conjI impI)
        show "log e' = log e @ Enter mathTextSequence # Consume c # tr1"
          using l by simp
      next
        assume "\<not> degrades_from False (Enter mathTextSequence # Consume c # tr1)"
        with s have "tr1 = [Consume codes_rightParenthesis, Exit mathTextSequence, Exit mathText]"
          by simp
        with bs have "Enter mathTextSequence # Consume c # tr1 = content_log []"
          by (simp add: content_log_def closing_fence_def)
        then show "\<exists>xs. (\<forall>x \<in> set xs. content_kind (fst x)) \<and>
            Enter mathTextSequence # Consume c # tr1 = content_log xs"
          by (intro exI [of _ "[]"]) simp
      qed
    next
      case sp
      with ok have "between (current (exit space (consume c (enter space e))))
         (exit space (consume c (enter space e))) = Ok c' e'"
        by (subst (asm) between.simps) (simp add: Let_def codes_defs)
      with between(2) [OF sp] obtain tr1 where
        l: "log e' = log (exit space (consume c (enter space e))) @ tr1" and
        s: "\<not> degrades_from False tr1 \<longrightarrow>
           (\<exists>xs. (\<forall>x \<in> set xs. content_kind (fst x)) \<and> tr1 = content_log xs)"
        by blast
      show ?thesis
      proof (intro exI [of _ "Enter space # Consume c # Exit space # tr1"] conjI impI)
        show "log e' = log e @ Enter space # Consume c # Exit space # tr1"
          using l by simp
      next
        assume "\<not> degrades_from False (Enter space # Consume c # Exit space # tr1)"
        with s obtain xs where "\<forall>x \<in> set xs. content_kind (fst x)" "tr1 = content_log xs"
          by auto
        then show "\<exists>xs. (\<forall>x \<in> set xs. content_kind (fst x)) \<and>
            Enter space # Consume c # Exit space # tr1 = content_log xs"
          by (intro exI [of _ "(space, [c]) # xs"]) (simp add: content_log_def content_kind_def)
      qed
    next
      case le
      with ok have "between (current (exit lineEnding (consume c (enter lineEnding e))))
         (exit lineEnding (consume c (enter lineEnding e))) = Ok c' e'"
        by (subst (asm) between.simps) (simp add: Let_def codes_defs)
      with between(3) [OF le] obtain tr1 where
        l: "log e' = log (exit lineEnding (consume c (enter lineEnding e))) @ tr1" and
        s: "\<not> degrades_from False tr1 \<longrightarrow>
           (\<exists>xs. (\<forall>x \<in> set xs. content_kind (fst x)) \<and> tr1 = content_log xs)"
        by blast
      show ?thesis
      proof (intro exI [of _ "Enter lineEnding # Consume c # Exit lineEnding # tr1"] conjI impI)
        show "log e' = log e @ Enter lineEnding # Consume c # Exit lineEnding # tr1"
          using l by simp
      next
        assume "\<not> degrades_from False (Enter lineEnding # Consume c # Exit lineEnding # tr1)"
        with s obtain xs where "\<forall>x \<in> set xs. content_kind (fst x)" "tr1 = content_log xs"
          by auto
        then show "\<exists>xs. (\<forall>x \<in> set xs. content_kind (fst x)) \<and>
            Enter lineEnding # Consume c # Exit lineEnding # tr1 = content_log xs"
          by (intro exI [of _ "(lineEnding, [c]) # xs"])
             (simp add: content_log_def content_kind_def)
      qed
    next
      case dt
      with ok have "data c (enter mathTextData e) = Ok c' e'"
        by (subst (asm) between.simps) (simp add: Let_def text_end_def)
      with between(4) [OF dt] obtain tr1 where
        l: "log e' = log (enter mathTextData e) @ tr1" and
        s: "\<not> degrades_from False tr1 \<longrightarrow>
           (\<exists>cs xs. (\<forall>x \<in> set xs. content_kind (fst x)) \<and>
              tr1 = map Consume cs @ Exit mathTextData # content_log xs)"
        by blast
      show ?thesis
      proof (intro exI [of _ "Enter mathTextData # tr1"] conjI impI)
        show "log e' = log e @ Enter mathTextData # tr1"
          using l by simp
      next
        assume "\<not> degrades_from False (Enter mathTextData # tr1)"
        with s obtain cs xs where "\<forall>x \<in> set xs. content_kind (fst x)"
          "tr1 = map Consume cs @ Exit mathTextData # content_log xs"
          by auto
        then show "\<exists>xs. (\<forall>x \<in> set xs. content_kind (fst x)) \<and>
            Enter mathTextData # tr1 = content_log xs"
          by (intro exI [of _ "(mathTextData, cs) # xs"])
             (simp add: content_log_def content_kind_def)
      qed
    next
      case eof
      with ok show ?thesis
        by (subst (asm) between.simps) simp
    qed
  qed
next
  case (closeParenthesis c e)
  show ?case
  proof (intro allI impI)
    fix c' e' assume ok: "closeParenthesis c e = Ok c' e'"
    show "\<exists>tr. log e' = log e @ tr \<and>
        (\<not> degrades_from True tr \<longrightarrow>
           tr = [Consume codes_rightParenthesis, Exit mathTextSequence, Exit mathText])"
    proof (cases "c = codes_rightParenthesis")
      case True
      with ok have "e' = exit mathText (exit mathTextSequence (consume c e))"
        by (subst (asm) closeParenthesis.simps) (simp add: Let_def)
      with True show ?thesis by simp
    next
      case False
      with ok have "data c (exit mathTextSequence (consume c (enter mathTextData e))) = Ok c' e'"
        by (subst (asm) closeParenthesis.simps) (simp add: Let_def)
      with closeParenthesis [OF False] obtain tr1 where
        l: "log e' = log (exit mathTextSequence (consume c (enter mathTextData e))) @ tr1"
        by blast
      show ?thesis
        by (intro exI [of _ "Enter mathTextData # Consume c # Exit mathTextSequence # tr1"])
           (simp add: l)
    qed
  qed
next
  case (data c e)
  show ?case
  proof (intro allI impI)
    fix c' e' assume ok: "data c e = Ok c' e'"
    show "\<exists>tr. log e' = log e @ tr \<and>
        (\<not> degrades_from False tr \<longrightarrow>
           (\<exists>cs xs. (\<forall>x \<in> set xs. content_kind (fst x)) \<and>
              tr = map Consume cs @ Exit mathTextData # content_log xs))"
    proof (cases "text_end c")
      case True
      with ok have "between c (exit mathTextData e) = Ok c' e'"
        by (subst (asm) data.simps) (simp add: text_end_def)
      with data(1) [OF True] obtain tr1 where
        l: "log e' = log (exit mathTextData e) @ tr1" and
        s: "\<not> degrades_from False tr1 \<longrightarrow>
           (\<exists>xs. (\<forall>x \<in> set xs. content_kind (fst x)) \<and> tr1 = content_log xs)"
        by blast
      show ?thesis
      proof (intro exI [of _ "Exit mathTextData # tr1"] conjI impI)
        show "log e' = log e @ Exit mathTextData # tr1"
          using l by simp
      next
        assume "\<not> degrades_from False (Exit mathTextData # tr1)"
        with s obtain xs where "\<forall>x \<in> set xs. content_kind (fst x)" "tr1 = content_log xs"
          by auto
        then show "\<exists>cs xs. (\<forall>x \<in> set xs. content_kind (fst x)) \<and>
            Exit mathTextData # tr1 = map Consume cs @ Exit mathTextData # content_log xs"
          by (intro exI [of _ "[]"] exI [of _ xs]) simp
      qed
    next
      case False
      with ok have "data (current (consume c e)) (consume c e) = Ok c' e'"
        by (subst (asm) data.simps) (simp add: text_end_def Let_def)
      with data(2) [OF False] obtain tr1 where
        l: "log e' = log (consume c e) @ tr1" and
        s: "\<not> degrades_from False tr1 \<longrightarrow>
           (\<exists>cs xs. (\<forall>x \<in> set xs. content_kind (fst x)) \<and>
              tr1 = map Consume cs @ Exit mathTextData # content_log xs)"
        by blast
      show ?thesis
      proof (intro exI [of _ "Consume c # tr1"] conjI impI)
        show "log e' = log e @ Consume c # tr1"
          using l by simp
      next
        assume "\<not> degrades_from False (Consume c # tr1)"
        then have "\<not> degrades_from False tr1"
          using degrades_from_mono [of tr1 True] by auto
        with s obtain cs xs where "\<forall>x \<in> set xs. content_kind (fst x)"
          "tr1 = map Consume cs @ Exit mathTextData # content_log xs"
          by auto
        then show "\<exists>cs xs. (\<forall>x \<in> set xs. content_kind (fst x)) \<and>
            Consume c # tr1 = map Consume cs @ Exit mathTextData # content_log xs"
          by (intro exI [of _ "c # cs"] exI [of _ xs]) simp
      qed
    qed
  qed
qed

lemma tokenizeParensMathText_shape:
  assumes ok: "tokenizeParensMathText self e = Ok c e'"
    and nd: "\<not> degrades (emitted e e')"
  shows "\<exists>xs. (\<forall>x \<in> set xs. content_kind (fst x)) \<and>
     emitted e e' = opening_fence @ content_log xs"
proof -
  let ?e = "exit mathTextSequence (consume codes_leftParenthesis
      (consume codes_backslash (enter mathTextSequence (enter mathText e))))"
  from ok have "between (current ?e) ?e = Ok c e'"
    by (auto simp: tokenizeParensMathText_def mathText_start_def openParenthesis_def Let_def
        split: if_splits sum.splits bool.splits)
  with inline_shape(1) obtain tr where
    l: "log e' = log ?e @ tr" and
    s: "\<not> degrades_from False tr \<longrightarrow>
       (\<exists>xs. (\<forall>x \<in> set xs. content_kind (fst x)) \<and> tr = content_log xs)"
    by blast
  from l have em: "emitted e e' = opening_fence @ tr"
    by (simp add: emitted_def opening_fence_def)
  with nd have "\<not> degrades_from False tr"
    by (simp add: degrades_def opening_fence_def)
  with s em show ?thesis by auto
qed

lemma build_append:
  "build b (xs @ ys) = (case build b xs of None \<Rightarrow> None | Some b' \<Rightarrow> build b' ys)"
  by (induction xs arbitrary: b) (auto split: option.splits)

lemma build_consumes:
  "build b (map Consume cs) = Some (b\<lparr>b_offset := b_offset b + length cs\<rparr>)"
  by (induction cs arbitrary: b) simp_all

lemma build_item:
  "build b (item (k, cs)) =
     Some (b\<lparr>b_offset := b_offset b + length cs,
             b_events := b_events b @ spans [length (b_tokens b)],
             b_tokens := b_tokens b @
               [\<lparr>ttype = k, tstart = b_offset b, tend = b_offset b + length cs\<rparr>]\<rparr>)"
  by (simp add: build_append build_consumes)

lemma length_item_tokens [simp]: "length (item_tokens off xs) = length xs"
  by (induction off xs rule: item_tokens.induct) simp_all

lemma build_items:
  "build b (concat (map item xs)) =
     Some (b\<lparr>b_offset := b_offset b + width xs,
             b_events := b_events b @ spans (refs (length (b_tokens b)) xs),
             b_tokens := b_tokens b @ item_tokens (b_offset b) xs\<rparr>)"
proof (induction xs arbitrary: b)
  case Nil
  then show ?case by simp
next
  case (Cons x xs)
  obtain k cs where x: "x = (k, cs)" by (cases x)
  show ?case
    unfolding x
    by (simp only: list.map concat.simps build_append build_item option.case Cons.IH)
       (simp add: add.assoc)
qed

lemma set_refs: "set (refs n xs) = {n ..< n + length xs}"
  by (induction n xs rule: refs.induct) auto

lemma distinct_refs: "distinct (refs n xs)"
  by (induction n xs rule: refs.induct) (auto simp: set_refs)

lemma item_tokens_update:
  "(item_tokens off xs @ t # ts)[length xs := t'] = item_tokens off xs @ t' # ts"
  by (metis length_item_tokens list_update_length)

lemma item_tokens_nth:
  "i < length xs \<Longrightarrow> ttype (item_tokens off xs ! i) = fst (xs ! i)"
proof (induction off xs arbitrary: i rule: item_tokens.induct)
  case (1 off)
  then show ?case by simp
next
  case (2 off k cs xs)
  then show ?case by (cases i) simp_all
qed

lemma events_of_accepted_log:
  "events_of (opening_fence @ content_log xs) =
     Some (frame 0 1 (refs 2 xs) (2 + length xs),
       \<lparr>ttype = mathText, tstart = 0, tend = 4 + width xs\<rparr> #
       \<lparr>ttype = mathTextSequence, tstart = 0, tend = 2\<rparr> #
       item_tokens 2 xs @
       [\<lparr>ttype = mathTextSequence, tstart = 2 + width xs, tend = 4 + width xs\<rparr>])"
  by (simp add: events_of_def opening_fence_def content_log_def closing_fence_def build_append
      build_items frame_def nth_append item_tokens_update eval_nat_numeral)

lemma accepted_inline_events:
  assumes ok: "tokenizeParensMathText self e = Ok c e'"
    and nd: "\<not> degrades (emitted e e')"
  shows "\<exists>ids closing tokens.
     events_of (emitted e e') = Some (frame 0 1 ids closing, tokens) \<and>
     valid_inline 0 1 ids closing tokens"
proof -
  from tokenizeParensMathText_shape [OF ok nd] obtain xs where
    k: "\<forall>x \<in> set xs. content_kind (fst x)" and
    em: "emitted e e' = opening_fence @ content_log xs"
    by blast
  let ?T = "\<lparr>ttype = mathText, tstart = 0, tend = 4 + width xs\<rparr> #
       \<lparr>ttype = mathTextSequence, tstart = 0, tend = 2\<rparr> #
       item_tokens 2 xs @
       [\<lparr>ttype = mathTextSequence, tstart = 2 + width xs, tend = 4 + width xs\<rparr>]"
  have ty: "ttype (?T ! i) \<in> {space, lineEnding, mathTextData}" if "i \<in> set (refs 2 xs)" for i
  proof -
    from that obtain j where j: "i = Suc (Suc j)" "j < length xs"
      by (auto simp: set_refs less_iff_Suc_add dest!: le_Suc_ex)
    with k have "content_kind (fst (xs ! j))" by simp
    with j show ?thesis
      by (simp add: nth_append item_tokens_nth content_kind_def)
  qed
  have "valid_inline 0 1 (refs 2 xs) (2 + length xs) ?T"
    unfolding valid_inline_def
    using ty by (auto simp: nth_append nth_Cons' set_refs distinct_refs)
  with events_of_accepted_log [of xs] em show ?thesis by metis
qed

section \<open>What the resolver does to a valid event list\<close>

text \<open>
  C6.  For a valid accepted inline event list the resolver returns the same frame around
  a new interior.  Its window is the interior, without the first and the last span when
  these were re-tagged as padding.  The tokens of the window in the output are the tokens
  of the window in the input coalesced: a line ending stays as it is, and every maximal
  run of spans that are not line endings has become one \<open>mathTextData\<close> token that
  starts where the first span of the run starts and ends where the last one ends.
\<close>

theorem resolver_merges_runs:
  assumes v: "valid_inline m opening ids closing tokens"
  shows "\<exists>ids' tokens'.
     resolveMathText (frame m opening ids closing, tokens) =
       Inr (frame m opening ids' closing, tokens') \<and>
     map ((!) tokens') (inner (padded tokens ids) ids') =
       coalesce (map ((!) tokens) (inner (padded tokens ids) ids))"
proof -
  from v have d: "distinct ids" and c: "\<not> edgeKind (ttype (tokens ! closing))"
    and len: "\<forall>i \<in> set ids. i < length tokens"
    by (auto simp: valid_inline_def edgeKind_def)
  let ?r = "resolveSpans tokens ids"
  have res: "resolveMathText (frame m opening ids closing, tokens) =
      Inr (frame m opening (fst ?r) closing, snd ?r)"
    using d c by (rule resolveMathText_frame)
  have "map ((!) (snd ?r)) (inner (padded tokens ids) (fst ?r)) =
      coalesce (map ((!) tokens) (inner (padded tokens ids) ids))"
  proof (cases "padded tokens ids")
    case True
    then obtain x mid y where ids: "ids = x # mid @ [y]" by (rule padded_shape)
    let ?t = "pad_edges tokens x y"
    from d ids have dm: "distinct mid" and xy: "x \<notin> set mid" "y \<notin> set mid" by auto
    from len ids have lm: "\<forall>i \<in> set mid. i < length ?t" by (simp add: pad_edges_facts)
    have same: "map ((!) ?t) mid = map ((!) tokens) mid"
      using xy by (intro map_cong refl pad_edges_facts(2)) auto
    have "map ((!) (snd (mergeSpans ?t mid))) (fst (mergeSpans ?t mid)) =
        coalesce (map ((!) ?t) mid)"
      using dm lm by (rule merge_coalesce(1))
    moreover have "resolveSpans tokens (x # mid @ [y]) =
        (x # fst (mergeSpans ?t mid) @ [y], snd (mergeSpans ?t mid))"
      using resolveSpans_padded [OF True ids] ids by simp
    ultimately show ?thesis
      using True ids same by (simp add: inner_def butlast_append)
  next
    case False
    with merge_coalesce(1) [OF d len] show ?thesis
      by (simp add: resolveSpans_def inner_def)
  qed
  with res show ?thesis by blast
qed

theorem resolver_merges_runs_witness:
  "inlineEvents [92, 40, 97, 32, 32, 98, 92, 41] = Some (frame 0 1 [2, 3, 4, 5] 6, tokens_a_b) \<and>
   valid_inline 0 1 [2, 3, 4, 5] 6 tokens_a_b \<and>
   (\<exists>ids' tokens'.
      resolveMathText (frame 0 1 [2, 3, 4, 5] 6, tokens_a_b) = Inr (frame 0 1 ids' 6, tokens') \<and>
      map ((!) tokens') (inner (padded tokens_a_b [2, 3, 4, 5]) ids') =
        coalesce (map ((!) tokens_a_b) (inner (padded tokens_a_b [2, 3, 4, 5]) [2, 3, 4, 5]))) \<and>
   coalesce (map ((!) tokens_a_b) (inner (padded tokens_a_b [2, 3, 4, 5]) [2, 3, 4, 5])) =
     [\<lparr>ttype = mathTextData, tstart = 2, tend = 6\<rparr>]"
proof -
  have e: "inlineEvents [92, 40, 97, 32, 32, 98, 92, 41] =
      Some (frame 0 1 [2, 3, 4, 5] 6, tokens_a_b)"
    by code_simp
  have v: "valid_inline 0 1 [2, 3, 4, 5] 6 tokens_a_b"
    by (simp add: valid_inline_def tokens_a_b_def)
  have c: "coalesce (map ((!) tokens_a_b) (inner (padded tokens_a_b [2, 3, 4, 5]) [2, 3, 4, 5])) =
      [\<lparr>ttype = mathTextData, tstart = 2, tend = 6\<rparr>]"
    by (simp add: inner_def padded_def edgeKind_def tokens_a_b_def)
  from resolver_merges_runs [OF v] e v c show ?thesis by blast
qed

text \<open>
  C5.  For a valid accepted inline event list the resolver re-tags the first and the
  last interior span as \<open>mathTextPadding\<close> exactly when both are a space or a line
  ending and a \<open>mathTextData\<close> span lies strictly between them: then these two spans,
  and no other interior span, are padding in the output; otherwise no interior span is.
\<close>

theorem resolver_padding:
  assumes v: "valid_inline m opening ids closing tokens"
  shows "\<exists>ids' tokens'.
     resolveMathText (frame m opening ids closing, tokens) =
       Inr (frame m opening ids' closing, tokens') \<and>
     (padded tokens ids \<longrightarrow>
        ids' \<noteq> [] \<and> hd ids' = hd ids \<and> last ids' = last ids \<and>
        ttype (tokens' ! hd ids') = mathTextPadding \<and>
        ttype (tokens' ! last ids') = mathTextPadding \<and>
        (\<forall>i \<in> set (butlast (tl ids')). ttype (tokens' ! i) \<noteq> mathTextPadding)) \<and>
     (\<not> padded tokens ids \<longrightarrow> (\<forall>i \<in> set ids'. ttype (tokens' ! i) \<noteq> mathTextPadding))"
proof -
  from v have d: "distinct ids" and c: "\<not> edgeKind (ttype (tokens ! closing))"
    and len: "\<forall>i \<in> set ids. i < length tokens"
    by (auto simp: valid_inline_def edgeKind_def)
  let ?r = "resolveSpans tokens ids"
  have res: "resolveMathText (frame m opening ids closing, tokens) =
      Inr (frame m opening (fst ?r) closing, snd ?r)"
    using d c by (rule resolveMathText_frame)
  have p: "fst ?r \<noteq> [] \<and> hd (fst ?r) = hd ids \<and> last (fst ?r) = last ids \<and>
        ttype (snd ?r ! hd (fst ?r)) = mathTextPadding \<and>
        ttype (snd ?r ! last (fst ?r)) = mathTextPadding \<and>
        (\<forall>i \<in> set (butlast (tl (fst ?r))). ttype (snd ?r ! i) \<noteq> mathTextPadding)"
    if pd: "padded tokens ids"
  proof -
    from pd obtain x mid y where ids: "ids = x # mid @ [y]" by (rule padded_shape)
    let ?t = "pad_edges tokens x y"
    let ?m = "mergeSpans ?t mid"
    from d ids have dm: "distinct mid" and xy: "x \<notin> set mid" "y \<notin> set mid" "x \<noteq> y" by auto
    from len ids have lm: "\<forall>i \<in> set mid. i < length ?t" and lx: "x < length tokens"
      and ly: "y < length tokens" by (simp_all add: pad_edges_facts)
    have r: "resolveSpans tokens (x # mid @ [y]) = (x # fst ?m @ [y], snd ?m)"
      using resolveSpans_padded [OF pd ids] ids by simp
    have "ttype (snd ?m ! x) = mathTextPadding" "ttype (snd ?m ! y) = mathTextPadding"
      using xy lx ly by (simp_all add: merge_untouched pad_edges_facts)
    moreover have "ttype (snd ?m ! i) \<noteq> mathTextPadding" if "i \<in> set (fst ?m)" for i
      using merge_types [OF dm lm that] by auto
    ultimately show ?thesis
      using ids by (simp add: r butlast_append)
  qed
  have n: "\<forall>i \<in> set (fst ?r). ttype (snd ?r ! i) \<noteq> mathTextPadding"
    if np: "\<not> padded tokens ids"
  proof
    fix i assume "i \<in> set (fst ?r)"
    with np have "i \<in> set (fst (mergeSpans tokens ids))" by (simp add: resolveSpans_def)
    from merge_types [OF d len this] np show "ttype (snd ?r ! i) \<noteq> mathTextPadding"
      by (auto simp: resolveSpans_def)
  qed
  from res p n show ?thesis by blast
qed

theorem resolver_padding_witness:
  "valid_inline 0 1 [2, 3, 4] 5 tokens_padded_a \<and>
   padded tokens_padded_a [2, 3, 4] \<and>
   (\<exists>ids' tokens'.
      resolveMathText (frame 0 1 [2, 3, 4] 5, tokens_padded_a) = Inr (frame 0 1 ids' 5, tokens') \<and>
      ids' \<noteq> [] \<and> hd ids' = hd [2, 3, 4] \<and> last ids' = last [2, 3, 4] \<and>
      ttype (tokens' ! hd ids') = mathTextPadding \<and>
      ttype (tokens' ! last ids') = mathTextPadding \<and>
      (\<forall>i \<in> set (butlast (tl ids')). ttype (tokens' ! i) \<noteq> mathTextPadding)) \<and>
   valid_inline 0 1 [2, 3, 4] 5 tokens_three_spaces \<and>
   \<not> padded tokens_three_spaces [2, 3, 4] \<and>
   (\<exists>ids' tokens'.
      resolveMathText (frame 0 1 [2, 3, 4] 5, tokens_three_spaces) =
        Inr (frame 0 1 ids' 5, tokens') \<and>
      (\<forall>i \<in> set ids'. ttype (tokens' ! i) \<noteq> mathTextPadding))"
proof -
  have v1: "valid_inline 0 1 [2, 3, 4] 5 tokens_padded_a"
    by (simp add: valid_inline_def tokens_padded_a_def)
  have p1: "padded tokens_padded_a [2, 3, 4]"
    by (simp add: padded_def edgeKind_def tokens_padded_a_def)
  have v2: "valid_inline 0 1 [2, 3, 4] 5 tokens_three_spaces"
    by (simp add: valid_inline_def tokens_three_spaces_def)
  have p2: "\<not> padded tokens_three_spaces [2, 3, 4]"
    by (simp add: padded_def edgeKind_def tokens_three_spaces_def)
  from resolver_padding [OF v1] p1 have
    "\<exists>ids' tokens'.
      resolveMathText (frame 0 1 [2, 3, 4] 5, tokens_padded_a) = Inr (frame 0 1 ids' 5, tokens') \<and>
      ids' \<noteq> [] \<and> hd ids' = hd [2, 3, 4] \<and> last ids' = last [2, 3, 4] \<and>
      ttype (tokens' ! hd ids') = mathTextPadding \<and>
      ttype (tokens' ! last ids') = mathTextPadding \<and>
      (\<forall>i \<in> set (butlast (tl ids')). ttype (tokens' ! i) \<noteq> mathTextPadding)"
    by blast
  moreover from resolver_padding [OF v2] p2 have
    "\<exists>ids' tokens'.
      resolveMathText (frame 0 1 [2, 3, 4] 5, tokens_three_spaces) =
        Inr (frame 0 1 ids' 5, tokens') \<and>
      (\<forall>i \<in> set ids'. ttype (tokens' ! i) \<noteq> mathTextPadding)"
    by blast
  ultimately show ?thesis using v1 p1 v2 p2 by blast
qed

text \<open>
  C7 (as the code has it).  On a valid accepted inline event list whose interior does
  not both begin and end with a space or a line ending, the resolver succeeds and a
  second application returns its result unchanged.
\<close>

theorem resolver_idempotent_without_edges:
  assumes v: "valid_inline m opening ids closing tokens"
    and e: "\<not> both_edges tokens ids"
  shows "\<exists>r. resolveMathText (frame m opening ids closing, tokens) = Inr r \<and>
     resolveMathText r = Inr r"
proof -
  from v have d: "distinct ids" and c: "\<not> edgeKind (ttype (tokens ! closing))"
    and len: "\<forall>i \<in> set ids. i < length tokens" and cn: "closing \<notin> set ids"
    and ty: "\<forall>i \<in> set ids. ttype (tokens ! i) \<in> {space, lineEnding, mathTextData}"
    by (auto simp: valid_inline_def edgeKind_def)
  let ?W = "fst (mergeSpans tokens ids)"
  let ?t = "snd (mergeSpans tokens ids)"
  from e have np: "\<not> padded tokens ids" by (auto simp: padded_def both_edges_def)
  from e have e': "ids = [] \<or> \<not> edgeKind (ttype (tokens ! hd ids)) \<or>
      \<not> edgeKind (ttype (tokens ! last ids))"
    by (auto simp: both_edges_def)
  from np have r1: "resolveSpans tokens ids = (?W, ?t)" by (simp add: resolveSpans_def)
  have res1: "resolveMathText (frame m opening ids closing, tokens) =
      Inr (frame m opening ?W closing, ?t)"
    using resolveMathText_frame [OF d c] by (simp add: r1)
  have view: "map ((!) ?t) ?W = coalesce (map ((!) tokens) ids)"
    using d len by (rule merge_coalesce(1))
  have np2: "\<not> padded ?t ?W"
  proof (cases "ids = []")
    case True
    then show ?thesis by (simp add: padded_def)
  next
    case False
    then have W: "?W \<noteq> []" using merge_hd(1) [of ids tokens] by simp
    from e' False consider
      (h) "\<not> edgeKind (ttype (tokens ! hd ids))" | (l) "\<not> edgeKind (ttype (tokens ! last ids))"
      by blast
    then show ?thesis
    proof cases
      case h
      then have "ttype (hd (map ((!) tokens) ids)) \<noteq> lineEnding"
        using False by (simp add: hd_map edgeKind_def)
      then have "ttype (hd (coalesce (map ((!) tokens) ids))) = mathTextData"
        using False by (intro coalesce_hd) simp_all
      then have "ttype (?t ! hd ?W) = mathTextData"
        using W by (simp add: view [symmetric] hd_map)
      then show ?thesis by (simp add: padded_def edgeKind_def)
    next
      case l
      then have "ttype (last (map ((!) tokens) ids)) \<noteq> lineEnding"
        using False by (simp add: last_map edgeKind_def)
      then have "ttype (last (coalesce (map ((!) tokens) ids))) = mathTextData"
        using False by (intro coalesce_last) simp_all
      then have "ttype (?t ! last ?W) = mathTextData"
        using W by (simp add: view [symmetric] last_map)
      then show ?thesis by (simp add: padded_def edgeKind_def)
    qed
  qed
  have "mergeSpans ?t ?W = (?W, ?t)"
    using merge_idem(1) [OF d len] by simp
  with np2 have r2: "resolveSpans ?t ?W = (?W, ?t)" by (simp add: resolveSpans_def)
  have d2: "distinct ?W" using d by (rule merge_distinct(1))
  have c2: "\<not> edgeKind (ttype (?t ! closing))"
    using c cn by (simp add: merge_untouched)
  have res2: "resolveMathText (frame m opening ?W closing, ?t) =
      Inr (frame m opening ?W closing, ?t)"
    using resolveMathText_frame [OF d2 c2] by (simp add: r2)
  from res1 res2 show ?thesis by blast
qed


theorem resolver_idempotent_without_edges_witness:
  "valid_inline 0 1 [2, 3, 4, 5] 6 tokens_a_b \<and>
   \<not> both_edges tokens_a_b [2, 3, 4, 5] \<and>
   (\<exists>r. resolveMathText (frame 0 1 [2, 3, 4, 5] 6, tokens_a_b) = Inr r \<and>
        resolveMathText r = Inr r)"
proof -
  have v: "valid_inline 0 1 [2, 3, 4, 5] 6 tokens_a_b"
    by (simp add: valid_inline_def tokens_a_b_def)
  have e: "\<not> both_edges tokens_a_b [2, 3, 4, 5]"
    by (simp add: both_edges_def edgeKind_def tokens_a_b_def)
  from resolver_idempotent_without_edges [OF v e] v e show ?thesis by blast
qed

text \<open>
  C7 (as stated) fails.  On the events of \<open>\\( a \\)\<close> the resolver re-tags the two
  spaces as padding; applied to its own output it merges the two padding spans and the
  data between them into one \<open>mathTextData\<close> span.
\<close>

theorem resolver_not_idempotent:
  "inlineEvents [92, 40, 32, 97, 32, 92, 41] = Some (frame 0 1 [2, 3, 4] 5, tokens_padded_a) \<and>
   resolveMathText (frame 0 1 [2, 3, 4] 5, tokens_padded_a) =
     Inr (frame 0 1 [2, 3, 4] 5,
       [\<lparr>ttype = mathText, tstart = 0, tend = 7\<rparr>,
        \<lparr>ttype = mathTextSequence, tstart = 0, tend = 2\<rparr>,
        \<lparr>ttype = mathTextPadding, tstart = 2, tend = 3\<rparr>,
        \<lparr>ttype = mathTextData, tstart = 3, tend = 4\<rparr>,
        \<lparr>ttype = mathTextPadding, tstart = 4, tend = 5\<rparr>,
        \<lparr>ttype = mathTextSequence, tstart = 5, tend = 7\<rparr>]) \<and>
   resolveMathText (frame 0 1 [2, 3, 4] 5,
       [\<lparr>ttype = mathText, tstart = 0, tend = 7\<rparr>,
        \<lparr>ttype = mathTextSequence, tstart = 0, tend = 2\<rparr>,
        \<lparr>ttype = mathTextPadding, tstart = 2, tend = 3\<rparr>,
        \<lparr>ttype = mathTextData, tstart = 3, tend = 4\<rparr>,
        \<lparr>ttype = mathTextPadding, tstart = 4, tend = 5\<rparr>,
        \<lparr>ttype = mathTextSequence, tstart = 5, tend = 7\<rparr>]) =
     Inr (frame 0 1 [2] 5,
       [\<lparr>ttype = mathText, tstart = 0, tend = 7\<rparr>,
        \<lparr>ttype = mathTextSequence, tstart = 0, tend = 2\<rparr>,
        \<lparr>ttype = mathTextData, tstart = 2, tend = 5\<rparr>,
        \<lparr>ttype = mathTextData, tstart = 3, tend = 4\<rparr>,
        \<lparr>ttype = mathTextPadding, tstart = 4, tend = 5\<rparr>,
        \<lparr>ttype = mathTextSequence, tstart = 5, tend = 7\<rparr>]) \<and>
   frame 0 1 [2] 5 \<noteq> frame 0 1 [2, 3, 4] 5"
  by code_simp

end
